theory Spec2Isabelle
  imports Main "HOL-Library.Word"
begin

section \<open>Reconnect supervisor: \<open>IMBridge.startWebsocket\<close>\<close>

text \<open>
  Go's \<open>time.Duration\<close> and the result of \<open>time.Now().UnixNano()\<close> are \<open>int64\<close>
  counts of nanoseconds. They are modelled as \<open>int\<close>, and every \<open>int64\<close> addition and
  multiplication of the source goes through \<open>wrap64\<close>.
\<close>

definition wrap64 :: "int \<Rightarrow> int" where
  "wrap64 x = (x + 2 ^ 63) mod 2 ^ 64 - 2 ^ 63"

definition Second :: int where
  "Second = 1000000000"

definition Minute :: int where
  "Minute = 60 * Second"

definition defaultReconnectBackoff :: int where
  "defaultReconnectBackoff = 2 * Second"

definition maxReconnectBackoff :: int where
  "maxReconnectBackoff = 2 * Minute"

definition reconnectBackoffReset :: int where
  "reconnectBackoffReset = 5 * Minute"

text \<open>
  What \<open>br.AS.StartWebsocket\<close> returned: the manual-stop sentinel, a close command whose
  status is \<open>MeowConnectionReplaced\<close>, any other error, or \<open>nil\<close>.
\<close>

datatype ws_result = ErrWebsocketManualStop | MeowConnectionReplaced | OtherError | NoError

text \<open>
  One pass through the \<open>for\<close> loop, as the environment drives it: the result of
  \<open>StartWebsocket\<close>, the nanoseconds that call blocked (dialling and the whole connected
  session), the value of \<open>br.stopping\<close> read after it, the delay after which
  \<open>shortCircuitReconnectBackoff\<close> delivers a value (\<open>None\<close>: never), and the value of
  \<open>br.stopping\<close> read after the wait.
\<close>

record attempt =
  result :: ws_result
  session :: int
  stopping_after_session :: bool
  short_circuit :: "int option"
  stopping_after_wait :: bool

text \<open>
  The local variables of \<open>startWebsocket\<close> and a simulated clock: \<open>clock\<close> is what
  \<open>time.Now().UnixNano()\<close> returns. Only the two blocking calls advance it.
\<close>

record ws_state =
  reconnectBackoff :: int
  lastDisconnect :: int
  clock :: int

text \<open>
  What a run of the loop leaves behind: for each disconnect that reached the backoff, the
  value of \<open>now\<close> and the duration handed to \<open>time.After\<close>; whether \<open>br.Stop()\<close> was
  called; whether the function returned (and closed \<open>websocketStopped\<close>); the final state.
\<close>

record ws_run =
  disconnects :: "(int \<times> int) list"
  bridge_stopped :: bool
  returned :: bool
  final :: ws_state

text \<open>Lines 502 to 511: the new value of \<open>reconnectBackoff\<close>.\<close>

definition next_backoff :: "int \<Rightarrow> ws_state \<Rightarrow> int" where
  "next_backoff now st =
     (if wrap64 (lastDisconnect st + reconnectBackoffReset) < now
      then defaultReconnectBackoff
      else (let b = wrap64 (reconnectBackoff st * 2)
            in if b > maxReconnectBackoff then maxReconnectBackoff else b))"

text \<open>
  The \<open>select\<close> of lines 513 to 517 blocks until the short-circuit channel delivers or
  the timer fires, whichever is first.
\<close>

definition backoff_wait :: "int \<Rightarrow> int option \<Rightarrow> int" where
  "backoff_wait b sc = (case sc of None \<Rightarrow> max 0 b | Some d \<Rightarrow> max 0 (min b d))"

definition ws_log :: "(int \<times> int) \<Rightarrow> ws_run \<Rightarrow> ws_run" where
  "ws_log d r = r\<lparr>disconnects := d # disconnects r\<rparr>"

fun ws_loop :: "attempt list \<Rightarrow> ws_state \<Rightarrow> ws_run" where
  "ws_loop [] st = \<lparr>disconnects = [], bridge_stopped = False, returned = False, final = st\<rparr>"
| "ws_loop (a # as) st =
     (let st1 = st\<lparr>clock := clock st + max 0 (session a)\<rparr> in
      if result a = ErrWebsocketManualStop then
        \<lparr>disconnects = [], bridge_stopped = False, returned = True, final = st1\<rparr>
      else if result a = MeowConnectionReplaced then
        \<lparr>disconnects = [], bridge_stopped = True, returned = True, final = st1\<rparr>
      else if stopping_after_session a then
        \<lparr>disconnects = [], bridge_stopped = False, returned = True, final = st1\<rparr>
      else
        (let now = clock st1;
             b = next_backoff now st1;
             st2 = st1\<lparr>reconnectBackoff := b, lastDisconnect := now,
                       clock := now + backoff_wait b (short_circuit a)\<rparr>
         in if stopping_after_wait a then
              \<lparr>disconnects = [(now, b)], bridge_stopped = False, returned = True, final = st2\<rparr>
            else ws_log (now, b) (ws_loop as st2)))"

text \<open>
  \<open>startWebsocket\<close> entered when the clock reads \<open>t0\<close>: lines 482 and 483 set the two
  variables, then the loop runs.
\<close>

definition startWebsocket :: "int \<Rightarrow> attempt list \<Rightarrow> ws_run" where
  "startWebsocket t0 as =
     ws_loop as \<lparr>reconnectBackoff = defaultReconnectBackoff, lastDisconnect = t0, clock = t0\<rparr>"

section \<open>Correlated request/response transport: package \<open>ipc\<close>\<close>

type_synonym command = string

text \<open>\<open>json.RawMessage\<close>: the bytes of a payload, never looked into here.\<close>

type_synonym raw_message = string

definition CommandResponse :: command where
  "CommandResponse = ''response''"

definition CommandError :: command where
  "CommandError = ''error''"

datatype message = Message (Command: command) (ID: int) (Data: raw_message)

text \<open>
  A value of type \<open>interface{}\<close> as \<open>respond\<close> tells them apart: \<open>nil\<close>, a value
  that implements \<open>error\<close> (with the text its \<open>Error()\<close> returns), a Go string, or any
  other value (with its JSON encoding).
\<close>

datatype iface = Nil | ErrorValue string | StringValue string | OtherValue raw_message

definition ErrUnknownCommand :: iface where
  "ErrUnknownCommand = ErrorValue ''unknown command''"

datatype outgoing_message =
  OutgoingMessage (out_Command: command) (out_ID: int) (out_Data: iface)

text \<open>A \<open>HandlerFunc\<close> returns a value or panics with one.\<close>

datatype handler_result = Returns iface | Panics iface

type_synonym handler_func = "raw_message \<Rightarrow> handler_result"

text \<open>A channel of \<open>*Message\<close>: what it buffers, how much it can buffer, whether it is closed.\<close>

record chan =
  buffer :: "message list"
  capacity :: nat
  is_closed :: bool

datatype log_line =
    ReceivedCommand message
  | InputClosed
  | FailedToRead
  | NothingWaiting int
  | PanicInHandler command iface
  | FailedToEncode string

text \<open>
  The \<open>Processor\<close>. The channels live in \<open>heap\<close>, addressed by the order of their
  allocation; \<open>stdout\<close> holds the frames the encoder wrote, \<open>logged\<close> what went to the
  logger, \<open>goroutines\<close> the handler calls that \<open>go\<close> started and that have not run yet.
  \<open>reqID\<close> is an \<open>int32\<close>.
\<close>

record processor =
  handlers :: "command \<rightharpoonup> handler_func"
  waiters :: "int \<rightharpoonup> nat"
  reqID :: "32 word"
  heap :: "nat \<Rightarrow> chan"
  next_chan :: nat
  stdout :: "outgoing_message list"
  logged :: "log_line list"
  goroutines :: "(message \<times> handler_func) list"

definition NewProcessor :: processor where
  "NewProcessor =
     \<lparr>handlers = Map.empty, waiters = Map.empty, reqID = 0,
      heap = (\<lambda>_. \<lparr>buffer = [], capacity = 0, is_closed = False\<rparr>), next_chan = 0,
      stdout = [], logged = [], goroutines = []\<rparr>"

definition SetHandler :: "command \<Rightarrow> handler_func \<Rightarrow> processor \<Rightarrow> processor" where
  "SetHandler cmd handler p = p\<lparr>handlers := (handlers p)(cmd \<mapsto> handler)\<rparr>"

text \<open>
  \<open>ipc.stdout.Encode\<close> under \<open>ipc.lock\<close>. Whether it fails (a value that does not
  marshal, a writer that refuses) is the environment's: \<open>enc_err\<close> is the error it
  returns, \<open>None\<close> for \<open>nil\<close>. A frame reaches the stream only when it succeeds.
\<close>

definition Encode :: "outgoing_message \<Rightarrow> string option \<Rightarrow> processor \<Rightarrow> processor" where
  "Encode frame enc_err p =
     (case enc_err of None \<Rightarrow> p\<lparr>stdout := stdout p @ [frame]\<rparr> | Some _ \<Rightarrow> p)"

definition respond :: "int \<Rightarrow> iface \<Rightarrow> string option \<Rightarrow> processor \<Rightarrow> processor" where
  "respond ident response enc_err p =
     (if ident = 0 \<and> response = Nil then p
      else
        (let resp = (case response of
                       ErrorValue e \<Rightarrow> OutgoingMessage CommandError ident (StringValue e)
                     | _ \<Rightarrow> OutgoingMessage CommandResponse ident response);
             p1 = Encode resp enc_err p
         in case enc_err of
              None \<Rightarrow> p1
            | Some e \<Rightarrow> p1\<lparr>logged := logged p1 @ [FailedToEncode e]\<rparr>))"

text \<open>
  \<open>callHandler\<close>: the deferred function runs \<open>recover()\<close>, and replies only when the
  recovered value is not \<open>nil\<close>; after a panic the two lines below the \<open>defer\<close> are not
  reached.
\<close>

definition callHandler ::
  "message \<Rightarrow> handler_func \<Rightarrow> string option \<Rightarrow> processor \<Rightarrow> processor" where
  "callHandler msg handler enc_err p =
     (case handler (Data msg) of
        Returns resp \<Rightarrow> respond (ID msg) resp enc_err p
      | Panics err \<Rightarrow>
          (if err \<noteq> Nil
           then respond (ID msg) err enc_err
                  (p\<lparr>logged := logged p @ [PanicInHandler (Command msg) err]\<rparr>)
           else p))"

text \<open>The scheduler runs the \<open>k\<close>-th goroutine that is waiting.\<close>

definition run_goroutine :: "nat \<Rightarrow> string option \<Rightarrow> processor \<Rightarrow> processor" where
  "run_goroutine k enc_err p =
     (if k < length (goroutines p)
      then callHandler (fst (goroutines p ! k)) (snd (goroutines p ! k)) enc_err
             (p\<lparr>goroutines := take k (goroutines p) @ drop (Suc k) (goroutines p)\<rparr>)
      else p)"

text \<open>
  \<open>waiter <- &msg\<close>: a send on a closed channel panics, a send on a full one blocks
  (here for good: the loop holds \<open>waiterLock\<close>), any other send appends to the buffer.
\<close>

datatype loop_fault = SendOnClosedChannel | SendBlocks

definition chan_send :: "nat \<Rightarrow> message \<Rightarrow> processor \<Rightarrow> loop_fault option \<times> processor" where
  "chan_send c msg p =
     (let ch = heap p c in
      if is_closed ch then (Some SendOnClosedChannel, p)
      else if length (buffer ch) < capacity ch
      then (None, p\<lparr>heap := (heap p)(c := ch\<lparr>buffer := buffer ch @ [msg]\<rparr>)\<rparr>)
      else (Some SendBlocks, p))"

text \<open>The body of the \<open>for\<close> loop of \<open>Loop\<close> once a message is decoded (lines 399 to 417).\<close>

definition Loop_body ::
  "message \<Rightarrow> string option \<Rightarrow> processor \<Rightarrow> loop_fault option \<times> processor" where
  "Loop_body msg enc_err p0 =
     (let p = p0\<lparr>logged := logged p0 @ [ReceivedCommand msg]\<rparr> in
      if Command msg = ''response'' \<or> Command msg = ''error'' then
        (case waiters p (ID msg) of
           None \<Rightarrow> (None, p\<lparr>logged := logged p @ [NothingWaiting (ID msg)]\<rparr>)
         | Some waiter \<Rightarrow> chan_send waiter msg (p\<lparr>waiters := (waiters p)(ID msg := None)\<rparr>))
      else
        (case handlers p (Command msg) of
           None \<Rightarrow> (None, respond (ID msg) ErrUnknownCommand enc_err p)
         | Some handler \<Rightarrow> (None, p\<lparr>goroutines := goroutines p @ [(msg, handler)]\<rparr>)))"

text \<open>
  What \<open>ipc.stdin.Decode\<close> returns, paired with the result of the \<open>Encode\<close> that the
  body may do for that message.
\<close>

datatype decoded = Decoded message | EOF | DecodeError

datatype loop_status = Ended | Reading | Faulted loop_fault

fun Loop :: "(decoded \<times> string option) list \<Rightarrow> processor \<Rightarrow> loop_status \<times> processor" where
  "Loop [] p = (Reading, p)"
| "Loop ((EOF, _) # _) p = (Ended, p\<lparr>logged := logged p @ [InputClosed]\<rparr>)"
| "Loop ((DecodeError, _) # _) p = (Ended, p\<lparr>logged := logged p @ [FailedToRead]\<rparr>)"
| "Loop ((Decoded msg, enc_err) # rest) p =
     (case Loop_body msg enc_err p of
        (Some fault, p') \<Rightarrow> (Faulted fault, p')
      | (None, p') \<Rightarrow> Loop rest p')"

text \<open>
  \<open>Request\<close>. \<open>atomic.AddInt32\<close> wraps; its result, converted to \<open>int\<close>, is the id.
  The function returns the channel and the error.
\<close>

definition next_id :: "processor \<Rightarrow> int" where
  "next_id p = sint (reqID p + 1)"

definition Request ::
  "command \<Rightarrow> iface \<Rightarrow> string option \<Rightarrow> processor \<Rightarrow> (nat \<times> string option) \<times> processor" where
  "Request cmd data enc_err p =
     (let respChan = next_chan p;
          p1 = p\<lparr>heap := (heap p)(respChan := \<lparr>buffer = [], capacity = 1, is_closed = False\<rparr>),
                 next_chan := Suc respChan\<rparr>;
          p2 = p1\<lparr>reqID := reqID p1 + 1\<rparr>;
          req = sint (reqID p2);
          p3 = p2\<lparr>waiters := (waiters p2)(req \<mapsto> respChan)\<rparr>;
          p4 = Encode (OutgoingMessage cmd req data) enc_err p3
      in case enc_err of
           None \<Rightarrow> ((respChan, None), p4)
         | Some e \<Rightarrow>
             ((respChan, Some e),
              p4\<lparr>waiters := (waiters p4)(req := None),
                 heap := (heap p4)(respChan := (heap p4 respChan)\<lparr>is_closed := True\<rparr>)\<rparr>))"

text \<open>
  \<open>RequestWait\<close> blocks in its \<open>select\<close> while the read loop runs, so it is two steps:
  lines 449 to 452, then the \<open>select\<close> of lines 453 to 472 once one of its cases is ready.
  \<open>ctx_err\<close> is \<open>ctx.Err()\<close> when \<open>ctx.Done()\<close> is ready; when the channel is ready
  too, the runtime chooses, and \<open>prefer_ctx\<close> is its choice. The payloads are handed
  back as they are, unparsed.
\<close>

datatype wait_result =
    RequestFailed string
  | ContextFinished string
  | ErrorResponse raw_message
  | Response raw_message
  | ReceivedNil
  | StillWaiting

definition RequestWait_send ::
  "command \<Rightarrow> iface \<Rightarrow> string option \<Rightarrow> processor \<Rightarrow> (wait_result + nat) \<times> processor" where
  "RequestWait_send cmd reqData enc_err p =
     (case Request cmd reqData enc_err p of
        ((respChan, Some e), p') \<Rightarrow> (Inl (RequestFailed e), p')
      | ((respChan, None), p') \<Rightarrow> (Inr respChan, p'))"

definition RequestWait_select ::
  "nat \<Rightarrow> string option \<Rightarrow> bool \<Rightarrow> processor \<Rightarrow> wait_result \<times> processor" where
  "RequestWait_select respChan ctx_err prefer_ctx p =
     (let ch = heap p respChan;
          ready = (buffer ch \<noteq> [] \<or> is_closed ch)
      in case ctx_err of
           Some e \<Rightarrow>
             if ready \<and> \<not> prefer_ctx then
               (case buffer ch of
                  [] \<Rightarrow> (ReceivedNil, p)
                | rawData # rest \<Rightarrow>
                    (if Command rawData = ''error'' then ErrorResponse (Data rawData)
                     else Response (Data rawData),
                     p\<lparr>heap := (heap p)(respChan := ch\<lparr>buffer := rest\<rparr>)\<rparr>))
             else (ContextFinished e, p)
         | None \<Rightarrow>
             if ready then
               (case buffer ch of
                  [] \<Rightarrow> (ReceivedNil, p)
                | rawData # rest \<Rightarrow>
                    (if Command rawData = ''error'' then ErrorResponse (Data rawData)
                     else Response (Data rawData),
                     p\<lparr>heap := (heap p)(respChan := ch\<lparr>buffer := rest\<rparr>)\<rparr>))
             else (StillWaiting, p))"

section \<open>Process supervisor: \<open>MacNoSIPConnector\<close>\<close>

subsection \<open>The liveness ping loop\<close>

text \<open>
  One pass through the loop of \<open>pingLoop\<close>, as the environment drives it: whether
  \<open>RequestAsync\<close> returned an error, the delay after which \<open>resp\<close> delivers and what
  (\<open>None\<close>: it never does), and the runtime's choices in the two \<open>select\<close>s when several
  cases are ready together.
\<close>

record ping =
  send_failed :: bool
  pong :: "(int \<times> message) option"
  choice1 :: nat
  choice2 :: nat

datatype ping_case = CaseStop | CaseTimeout | CasePong message

text \<open>
  How the loop ends: \<open>os.Exit\<close> with a code, a plain \<open>return\<close>, or neither yet (still
  looping, or blocked in a \<open>select\<close> none of whose cases comes); each with the clock.
\<close>

datatype ping_end = Exit int int | Return int | Looping int | Blocked int

text \<open>
  A \<open>select\<close> over cases given with the time at which each becomes ready: it takes a
  case that is ready first; among several ready at once the runtime chooses.
\<close>

definition earliest :: "(int \<times> 'a) list \<Rightarrow> (int \<times> 'a) list" where
  "earliest cs = filter (\<lambda>c. list_all (\<lambda>d. fst c \<le> fst d) cs) cs"

definition select :: "nat \<Rightarrow> (int \<times> 'a) list \<Rightarrow> (int \<times> 'a) option" where
  "select choice cs =
     (case earliest cs of [] \<Rightarrow> None | e # es \<Rightarrow> Some ((e # es) ! (choice mod length (e # es))))"

text \<open>
  \<open>stop\<close> is the time at which a value is sent on \<open>stopPinger\<close> (\<open>None\<close>: never); the
  channel is buffered, so the value stays ready from then on. \<open>now\<close> is the clock when the
  pass begins.
\<close>

definition stop_case :: "int option \<Rightarrow> int \<Rightarrow> (int \<times> ping_case) list" where
  "stop_case stop now = (case stop of None \<Rightarrow> [] | Some s \<Rightarrow> [(max now s, CaseStop)])"

definition pong_case :: "(int \<times> message) option \<Rightarrow> int \<Rightarrow> (int \<times> ping_case) list" where
  "pong_case r now = (case r of None \<Rightarrow> [] | Some (d, m) \<Rightarrow> [(now + max 0 d, CasePong m)])"

fun pingLoop :: "int \<Rightarrow> int option \<Rightarrow> ping list \<Rightarrow> int \<Rightarrow> ping_end" where
  "pingLoop pingInterval stop [] now = Looping now"
| "pingLoop pingInterval stop (p # ps) now =
     (if send_failed p then Exit 254 now
      else
        (let timeout = now + max 0 pingInterval in
         case select (choice1 p)
                (stop_case stop now @ [(timeout, CaseTimeout)] @ pong_case (pong p) now) of
           None \<Rightarrow> Blocked now
         | Some (t, CaseStop) \<Rightarrow> Return t
         | Some (t, CaseTimeout) \<Rightarrow> Exit 255 t
         | Some (t, CasePong rawData) \<Rightarrow>
             if Command rawData = ''error'' then Exit 253 t
             else
               (case select (choice2 p) ([(timeout, CaseTimeout)] @ stop_case stop t) of
                  None \<Rightarrow> Blocked t
                | Some (t', CaseStop) \<Rightarrow> Return t'
                | Some (t', _) \<Rightarrow> pingLoop pingInterval stop ps t')))"

subsection \<open>Stopping the child\<close>

text \<open>
  \<open>exec.Cmd\<close>, as package \<open>os/exec\<close> documents it: \<open>Process\<close> is \<open>nil\<close> until
  \<open>Start\<close> has succeeded, and \<open>ProcessState\<close> is \<open>nil\<close> until \<open>Wait\<close> has returned
  (it is \<open>Wait\<close> that sets it, once the child is gone). \<open>Exited\<close> is false for a child
  that a signal ended. \<open>running\<close> and \<open>signals\<close> are the child itself: whether it
  is alive, and the signals it received.
\<close>

datatype signal = SIGTERM | SIGKILL

record process_state =
  Exited :: bool
  ExitCode :: int

record cmd =
  Process :: bool
  ProcessState :: "process_state option"
  running :: bool
  signals :: "signal list"

datatype mac_log_line =
    NotRunningWhenStopCalled
  | FailedToSendSIGTERM
  | ErrorWaiting string

text \<open>
  The fields of the connector that \<open>Stop\<close> uses: \<open>stopPinger\<close> counts the values
  buffered in the channel (its capacity is 8), \<open>kill_timers\<close> the timers that
  \<open>time.AfterFunc\<close> armed.
\<close>

record connector =
  proc :: "cmd option"
  stopPinger :: nat
  kill_timers :: nat
  mac_logged :: "mac_log_line list"

datatype stop_end = Finished connector | BlockedOnStopPinger connector | NilDereference

definition not_running :: "connector \<Rightarrow> stop_end" where
  "not_running mac = Finished (mac\<lparr>mac_logged := mac_logged mac @ [NotRunningWhenStopCalled]\<rparr>)"

text \<open>
  \<open>Process.Signal\<close> on a child that \<open>Wait\<close> has reaped returns \<open>os.ErrProcessDone\<close>,
  which \<open>Stop\<close> does not log; \<open>Cmd.Wait\<close> returns an error at once when \<open>Process\<close> is
  \<open>nil\<close> or \<open>ProcessState\<close> is already set, which it is on every path that reaches it.
\<close>

definition Stop :: "connector \<Rightarrow> stop_end" where
  "Stop mac =
     (case proc mac of
        None \<Rightarrow> not_running mac
      | Some c \<Rightarrow>
          (case ProcessState c of
             None \<Rightarrow> not_running mac
           | Some ps \<Rightarrow>
               if Exited ps then not_running mac
               else if 8 \<le> stopPinger mac then BlockedOnStopPinger mac
               else if \<not> Process c then NilDereference
               else
                 (let c1 = (if running c then c\<lparr>signals := signals c @ [SIGTERM]\<rparr> else c)
                  in Finished
                       (mac\<lparr>proc := Some c1,
                            stopPinger := Suc (stopPinger mac),
                            kill_timers := Suc (kill_timers mac),
                            mac_logged := mac_logged mac
                              @ [ErrorWaiting ''exec: Wait was already called'']\<rparr>))))"

text \<open>
  \<open>Start\<close>, as far as \<open>mac.proc\<close> goes: \<open>exec.Command\<close> gives a command that is not
  started; the two pipes and \<open>proc.Start()\<close> may each fail, which ends \<open>Start\<close> with
  that error (\<open>failure\<close> says which, if any); otherwise the child runs. Nothing in
  \<open>Start\<close>, nor anywhere else but in \<open>Stop\<close>, calls \<open>proc.Wait()\<close>.
\<close>

datatype start_failure = StdoutPipeFailed | StdinPipeFailed | StartFailed

definition Start :: "start_failure option \<Rightarrow> connector \<Rightarrow> start_failure option \<times> connector" where
  "Start failure mac =
     (case failure of
        Some f \<Rightarrow>
          (Some f,
           mac\<lparr>proc := Some \<lparr>Process = False, ProcessState = None, running = False,
                              signals = []\<rparr>\<rparr>)
      | None \<Rightarrow>
          (None,
           mac\<lparr>proc := Some \<lparr>Process = True, ProcessState = None, running = True,
                              signals = []\<rparr>\<rparr>))"

definition NewMacNoSIPConnector :: connector where
  "NewMacNoSIPConnector = \<lparr>proc = None, stopPinger = 0, kill_timers = 0, mac_logged = []\<rparr>"

section \<open>Predicates of the statements\<close>

text \<open>A reply is an envelope whose command is \<open>response\<close> or \<open>error\<close>.\<close>

definition is_reply :: "message \<Rightarrow> bool" where
  "is_reply msg = (Command msg = ''response'' \<or> Command msg = ''error'')"

text \<open>
  The state of the correlation table that \<open>Request\<close> and \<open>Loop\<close> keep up: two pending
  ids never share a channel, and the channel of a pending id has been allocated, has room
  for one message, is empty and is open.
\<close>

definition waiters_ok :: "processor \<Rightarrow> bool" where
  "waiters_ok p =
     ((\<forall>i j c. waiters p i = Some c \<and> waiters p j = Some c \<longrightarrow> i = j) \<and>
      (\<forall>i c. waiters p i = Some c \<longrightarrow>
         c < next_chan p \<and> heap p c = \<lparr>buffer = [], capacity = 1, is_closed = False\<rparr>))"

text \<open>The messages that \<open>Loop\<close> reads from an input: those before the stream ends or breaks.\<close>

fun read_messages :: "(decoded \<times> string option) list \<Rightarrow> message list" where
  "read_messages [] = []"
| "read_messages ((Decoded msg, _) # rest) = msg # read_messages rest"
| "read_messages ((EOF, _) # _) = []"
| "read_messages ((DecodeError, _) # _) = []"

text \<open>
  A pass of the reconnect loop that reaches the backoff and goes round again: the
  connection ended for a reason other than a manual stop or a replacement, and
  \<open>br.stopping\<close> was false both times it was read.
\<close>

definition proceeds :: "attempt \<Rightarrow> bool" where
  "proceeds a =
     (result a \<noteq> ErrWebsocketManualStop \<and> result a \<noteq> MeowConnectionReplaced \<and>
      \<not> stopping_after_session a \<and> \<not> stopping_after_wait a)"

text \<open>
  Disconnects are consecutive when none comes more than the reset window after the one
  before it (\<open>prev\<close> is the time of the one before the first of the list).
\<close>

fun within_window :: "int \<Rightarrow> int list \<Rightarrow> bool" where
  "within_window prev [] = True"
| "within_window prev (t # ts) = (t \<le> prev + reconnectBackoffReset \<and> within_window t ts)"

text \<open>Timestamps to which the reset window can be added without leaving \<open>int64\<close>.\<close>

definition in_range :: "int \<Rightarrow> bool" where
  "in_range t = (0 \<le> t \<and> t + reconnectBackoffReset < 2 ^ 63)"

text \<open>
  What holds of the variables of the loop at the top of every pass: the last disconnect is
  not in the future, and the backoff lies between the default and the maximum.
\<close>

definition ws_ok :: "ws_state \<Rightarrow> bool" where
  "ws_ok st =
     (0 \<le> lastDisconnect st \<and> lastDisconnect st \<le> clock st \<and>
      defaultReconnectBackoff \<le> reconnectBackoff st \<and>
      reconnectBackoff st \<le> maxReconnectBackoff)"

text \<open>
  A sample pass: the connection drops with an error after \<open>d\<close> seconds, nothing asks
  the bridge to stop, and nothing cuts the backoff short.
\<close>

definition drops_after :: "int \<Rightarrow> attempt" where
  "drops_after d =
     \<lparr>result = OtherError, session = d * Second, stopping_after_session = False,
      short_circuit = None, stopping_after_wait = False\<rparr>"

text \<open>
  The rule for the next backoff in words: the default when more than the reset window
  has elapsed, else the double of the previous value, capped.
\<close>

definition backoff_rule :: "int \<Rightarrow> int \<Rightarrow> int" where
  "backoff_rule elapsed previous =
     (if reconnectBackoffReset < elapsed then defaultReconnectBackoff
      else min (previous * 2) maxReconnectBackoff)"

text \<open>
  The states of a processor that its operations can produce, in any interleaving: the
  read loop taking a message, a request, a handler goroutine running, a \<open>select\<close> of
  \<open>RequestWait\<close> on a channel that \<open>Request\<close> returned, a handler being registered.
\<close>

inductive reachable :: "processor \<Rightarrow> bool" where
  new: "reachable NewProcessor"
| set_handler: "reachable p \<Longrightarrow> reachable (SetHandler cmd handler p)"
| request: "reachable p \<Longrightarrow> reachable (snd (Request cmd data enc_err p))"
| loop: "reachable p \<Longrightarrow> reachable (snd (Loop_body msg enc_err p))"
| goroutine: "reachable p \<Longrightarrow> reachable (run_goroutine k enc_err p)"
| wait: "reachable p \<Longrightarrow> respChan < next_chan p \<Longrightarrow>
         reachable (snd (RequestWait_select respChan ctx_err prefer_ctx p))"

text \<open>
  A run of passes of the ping loop each of which is answered: the ping is sent, a pong
  other than an error comes before the interval has elapsed, and no stop signal is ready
  before the interval has elapsed. \<open>now\<close> is the clock when the first of them begins.
\<close>

fun answered :: "int \<Rightarrow> int option \<Rightarrow> ping list \<Rightarrow> int \<Rightarrow> bool" where
  "answered pingInterval stop [] now = True"
| "answered pingInterval stop (p # ps) now =
     (\<not> send_failed p \<and>
      (case pong p of
         None \<Rightarrow> False
       | Some (d, m) \<Rightarrow> Command m \<noteq> ''error'' \<and> 0 \<le> d \<and> d < pingInterval) \<and>
      (case stop of None \<Rightarrow> True | Some s \<Rightarrow> now + pingInterval < s) \<and>
      answered pingInterval stop ps (now + pingInterval))"

section \<open>Properties of the liveness ping loop\<close>

lemma select_strict:
  assumes "(t, c) \<in> set cs" and "\<forall>d\<in>set cs. d = (t, c) \<or> t < fst d"
  shows "select k cs = Some (t, c)"
proof -
  have sub: "set (earliest cs) \<subseteq> {(t, c)}"
    using assms by (fastforce simp: earliest_def list_all_iff)
  have "(t, c) \<in> set (earliest cs)"
    using assms by (fastforce simp: earliest_def list_all_iff)
  then obtain e es where ees: "earliest cs = e # es"
    by (cases "earliest cs") auto
  have "(e # es) ! (k mod length (e # es)) \<in> set (e # es)"
    by (rule nth_mem) simp
  with sub ees have "(e # es) ! (k mod length (e # es)) = (t, c)"
    by auto
  with ees show ?thesis
    by (simp add: select_def)
qed

lemma pingLoop_send_failed:
  "send_failed p \<Longrightarrow> pingLoop pingInterval stop (p # ps) now = Exit 254 now"
  by simp

lemma pingLoop_timeout:
  assumes "\<not> send_failed p" "0 \<le> pingInterval"
    and "case pong p of None \<Rightarrow> True | Some (d, m) \<Rightarrow> pingInterval < d"
    and "case stop of None \<Rightarrow> True | Some s \<Rightarrow> now + pingInterval < s"
  shows "pingLoop pingInterval stop (p # ps) now = Exit 255 (now + pingInterval)"
proof -
  have "select (choice1 p)
          (stop_case stop now @ [(now + max 0 pingInterval, CaseTimeout)] @ pong_case (pong p) now)
        = Some (now + pingInterval, CaseTimeout)"
    using assms
    by (intro select_strict) (auto simp: stop_case_def pong_case_def split: option.splits)
  with assms show ?thesis by (simp add: Let_def)
qed

lemma pingLoop_error_pong:
  assumes "\<not> send_failed p" "pong p = Some (d, m)" "Command m = ''error''"
    and "0 \<le> d" "d < pingInterval"
    and "case stop of None \<Rightarrow> True | Some s \<Rightarrow> now + d < s"
  shows "pingLoop pingInterval stop (p # ps) now = Exit 253 (now + d)"
proof -
  have "select (choice1 p)
          (stop_case stop now @ [(now + max 0 pingInterval, CaseTimeout)] @ pong_case (pong p) now)
        = Some (now + d, CasePong m)"
    using assms
    by (intro select_strict) (auto simp: stop_case_def pong_case_def split: option.splits)
  with assms show ?thesis by (simp add: Let_def)
qed

lemma pingLoop_stop_before_pong:
  assumes "\<not> send_failed p" "stop = Some s" "max now s < now + max 0 pingInterval"
    and "case pong p of None \<Rightarrow> True | Some (d, m) \<Rightarrow> max now s < now + max 0 d"
  shows "pingLoop pingInterval stop (p # ps) now = Return (max now s)"
proof -
  have "select (choice1 p)
          (stop_case stop now @ [(now + max 0 pingInterval, CaseTimeout)] @ pong_case (pong p) now)
        = Some (max now s, CaseStop)"
    using assms
    by (intro select_strict) (auto simp: stop_case_def pong_case_def split: option.splits)
  with assms show ?thesis by (simp add: Let_def)
qed

lemma pingLoop_stop_after_pong:
  assumes "\<not> send_failed p" "stop = Some s" "s < now + max 0 pingInterval"
    and "pong p = Some (d, m)" "Command m \<noteq> ''error''" "now + max 0 d < s"
  shows "pingLoop pingInterval stop (p # ps) now = Return s"
proof -
  have "select (choice1 p)
          (stop_case stop now @ [(now + max 0 pingInterval, CaseTimeout)] @ pong_case (pong p) now)
        = Some (now + max 0 d, CasePong m)"
    using assms
    by (intro select_strict) (auto simp: stop_case_def pong_case_def split: option.splits)
  moreover have "select (choice2 p)
          ([(now + max 0 pingInterval, CaseTimeout)] @ stop_case stop (now + max 0 d))
        = Some (s, CaseStop)"
    using assms
    by (intro select_strict) (auto simp: stop_case_def pong_case_def split: option.splits)
  ultimately show ?thesis using assms by (simp add: Let_def)
qed

text \<open>An answered pass takes the whole interval and hands on to the next pass.\<close>

lemma pingLoop_answered_pass:
  assumes "\<not> send_failed p" and "pong p = Some (d, m)" and "Command m \<noteq> ''error''"
    and "0 \<le> d" and "d < pingInterval"
    and "case stop of None \<Rightarrow> True | Some s \<Rightarrow> now + pingInterval < s"
  shows "pingLoop pingInterval stop (p # ps) now
         = pingLoop pingInterval stop ps (now + pingInterval)"
proof -
  have "select (choice1 p)
          (stop_case stop now @ [(now + max 0 pingInterval, CaseTimeout)] @ pong_case (pong p) now)
        = Some (now + d, CasePong m)"
    using assms
    by (intro select_strict) (auto simp: stop_case_def pong_case_def split: option.splits)
  moreover have "select (choice2 p)
          ([(now + max 0 pingInterval, CaseTimeout)] @ stop_case stop (now + d))
        = Some (now + pingInterval, CaseTimeout)"
    using assms
    by (intro select_strict) (auto simp: stop_case_def split: option.splits)
  ultimately show ?thesis using assms by (simp add: Let_def)
qed

lemma pingLoop_answered:
  assumes "answered pingInterval stop pre now"
  shows "pingLoop pingInterval stop (pre @ ps) now
         = pingLoop pingInterval stop ps (now + int (length pre) * pingInterval)"
  using assms
proof (induction pre arbitrary: now)
  case Nil
  then show ?case by simp
next
  case (Cons p pre)
  from Cons.prems obtain d m where p: "\<not> send_failed p" "pong p = Some (d, m)"
      "Command m \<noteq> ''error''" "0 \<le> d" "d < pingInterval"
      "case stop of None \<Rightarrow> True | Some s \<Rightarrow> now + pingInterval < s"
    and rest: "answered pingInterval stop pre (now + pingInterval)"
    by (cases "pong p") auto
  have "pingLoop pingInterval stop ((p # pre) @ ps) now
        = pingLoop pingInterval stop (pre @ ps) (now + pingInterval)"
    using pingLoop_answered_pass [OF p] by simp
  also have "\<dots> = pingLoop pingInterval stop ps
                     (now + pingInterval + int (length pre) * pingInterval)"
    by (rule Cons.IH [OF rest])
  also have "now + pingInterval + int (length pre) * pingInterval
             = now + int (length (p # pre)) * pingInterval"
    by (simp add: algebra_simps)
  finally show ?case .
qed

text \<open>
  C7, as the code has it. After any number of answered passes, in a pass whose ping was
  written: when neither a pong nor a stop signal comes within \<open>pingInterval\<close>, the
  process exits with code 255 at the moment the interval has elapsed since the ping (on
  the simulated clock, where only waiting takes time); when the stop signal is ready
  strictly before the other cases of the \<open>select\<close> that is waiting, the first or the
  second one, the loop returns and no exit is taken. The stop channel is read in the two
  \<open>select\<close>s only: a pass whose ping cannot be written exits with code 254 whether or
  not a stop signal is waiting.
\<close>

theorem pingLoop_timeout_fatal_stop_clean:
  assumes "0 \<le> pingInterval" and "answered pingInterval stop pre now"
  shows "(\<not> send_failed p \<and>
          (case pong p of None \<Rightarrow> True | Some (d, m) \<Rightarrow> pingInterval < d) \<and>
          (case stop of
             None \<Rightarrow> True
           | Some s \<Rightarrow> now + int (length pre) * pingInterval + pingInterval < s)
            \<longrightarrow> pingLoop pingInterval stop (pre @ p # ps) now
                = Exit 255 (now + int (length pre) * pingInterval + pingInterval)) \<and>
         (\<forall>s. \<not> send_failed p \<and> stop = Some s \<and>
              max (now + int (length pre) * pingInterval) s
                < now + int (length pre) * pingInterval + pingInterval \<and>
              (case pong p of
                 None \<Rightarrow> True
               | Some (d, m) \<Rightarrow>
                   max (now + int (length pre) * pingInterval) s
                     < now + int (length pre) * pingInterval + max 0 d)
            \<longrightarrow> pingLoop pingInterval stop (pre @ p # ps) now
                = Return (max (now + int (length pre) * pingInterval) s)) \<and>
         (\<forall>s d m. \<not> send_failed p \<and> stop = Some s \<and>
              s < now + int (length pre) * pingInterval + pingInterval \<and>
              pong p = Some (d, m) \<and> Command m \<noteq> ''error'' \<and>
              now + int (length pre) * pingInterval + max 0 d < s
            \<longrightarrow> pingLoop pingInterval stop (pre @ p # ps) now = Return s) \<and>
         (send_failed p
            \<longrightarrow> pingLoop pingInterval stop (pre @ p # ps) now
                = Exit 254 (now + int (length pre) * pingInterval))"
proof -
  define n where "n = now + int (length pre) * pingInterval"
  have run: "pingLoop pingInterval stop (pre @ p # ps) now
             = pingLoop pingInterval stop (p # ps) n"
    unfolding n_def by (rule pingLoop_answered [OF assms(2)])
  have 1: "\<not> send_failed p \<and>
          (case pong p of None \<Rightarrow> True | Some (d, m) \<Rightarrow> pingInterval < d) \<and>
          (case stop of None \<Rightarrow> True | Some s \<Rightarrow> n + pingInterval < s)
            \<longrightarrow> pingLoop pingInterval stop (p # ps) n = Exit 255 (n + pingInterval)"
    using assms(1) by (intro impI pingLoop_timeout) simp_all
  have 2: "\<forall>s. \<not> send_failed p \<and> stop = Some s \<and> max n s < n + pingInterval \<and>
              (case pong p of None \<Rightarrow> True | Some (d, m) \<Rightarrow> max n s < n + max 0 d)
            \<longrightarrow> pingLoop pingInterval stop (p # ps) n = Return (max n s)"
    using assms(1) by (intro allI impI pingLoop_stop_before_pong) simp_all
  have 3: "\<forall>s d m. \<not> send_failed p \<and> stop = Some s \<and> s < n + pingInterval \<and>
              pong p = Some (d, m) \<and> Command m \<noteq> ''error'' \<and> n + max 0 d < s
            \<longrightarrow> pingLoop pingInterval stop (p # ps) n = Return s"
  proof (intro allI impI)
    fix s d m
    assume "\<not> send_failed p \<and> stop = Some s \<and> s < n + pingInterval \<and>
              pong p = Some (d, m) \<and> Command m \<noteq> ''error'' \<and> n + max 0 d < s"
    with assms(1) show "pingLoop pingInterval stop (p # ps) n = Return s"
      by (intro pingLoop_stop_after_pong [where d = d and m = m]) simp_all
  qed
  have 4: "send_failed p \<longrightarrow> pingLoop pingInterval stop (p # ps) n = Exit 254 n"
    by (simp add: pingLoop_send_failed)
  from 1 2 3 4 show ?thesis
    unfolding run n_def by blast
qed

theorem pingLoop_timeout_fatal_stop_clean_witness:
  "pingLoop 30 None
     [\<lparr>send_failed = False, pong = Some (5, Message ''response'' 1 ''null''),
       choice1 = 0, choice2 = 0\<rparr>,
      \<lparr>send_failed = False, pong = None, choice1 = 0, choice2 = 0\<rparr>] 100
     = Exit 255 160 \<and>
   pingLoop 30 (Some 140)
     [\<lparr>send_failed = False, pong = Some (5, Message ''response'' 1 ''null''),
       choice1 = 0, choice2 = 0\<rparr>,
      \<lparr>send_failed = False, pong = None, choice1 = 0, choice2 = 0\<rparr>] 100
     = Return 140 \<and>
   pingLoop 30 (Some 140)
     [\<lparr>send_failed = False, pong = Some (5, Message ''response'' 1 ''null''),
       choice1 = 0, choice2 = 0\<rparr>,
      \<lparr>send_failed = False, pong = Some (5, Message ''response'' 2 ''null''),
       choice1 = 0, choice2 = 0\<rparr>] 100
     = Return 140"
proof -
  let ?good = "\<lparr>send_failed = False, pong = Some (5, Message ''response'' 1 ''null''),
                choice1 = 0, choice2 = 0\<rparr>"
  let ?good2 = "\<lparr>send_failed = False, pong = Some (5, Message ''response'' 2 ''null''),
                 choice1 = 0, choice2 = 0\<rparr>"
  let ?silent = "\<lparr>send_failed = False, pong = None, choice1 = 0, choice2 = 0\<rparr>"
  have i: "(0::int) \<le> 30" by simp
  have a: "answered 30 None [?good] 100" "answered 30 (Some 140) [?good] 100"
    by simp_all
  from pingLoop_timeout_fatal_stop_clean [OF i a(1), of ?silent "[]"]
  have 1: "pingLoop 30 None [?good, ?silent] 100 = Exit 255 160"
    by simp
  from pingLoop_timeout_fatal_stop_clean [OF i a(2), of ?silent "[]"]
  have 2: "pingLoop 30 (Some 140) [?good, ?silent] 100 = Return 140"
    by simp
  from pingLoop_timeout_fatal_stop_clean [OF i a(2), of ?good2 "[]"]
  have 3: "pingLoop 30 (Some 140) [?good, ?good2] 100 = Return 140"
    by simp
  from 1 2 3 show ?thesis by simp
qed

text \<open>
  The claim as the specification words it fails for a stop signal that is already waiting
  when a pass begins: the ping is sent before the channel is looked at, and when it
  cannot be sent the process exits with code 254.
\<close>

theorem pingLoop_exit_254_with_stop_waiting:
  "pingLoop 30 (Some 50) [\<lparr>send_failed = True, pong = None, choice1 = 0, choice2 = 0\<rparr>] 100
   = Exit 254 100"
  by simp

text \<open>
  C10. After any number of answered passes, a pong that comes within the interval,
  before any stop signal, and carries the command \<open>error\<close> ends the process with exit
  code 253 at once; a ping that could not be sent ends it with 254, and a pass without
  pong or stop within the interval with 255.
\<close>

theorem pingLoop_error_pong_is_fatal:
  assumes "0 \<le> pingInterval" and "answered pingInterval stop pre now"
  shows "(\<forall>d m. \<not> send_failed p \<and> pong p = Some (d, m) \<and> Command m = ''error'' \<and>
              0 \<le> d \<and> d < pingInterval \<and>
              (case stop of
                 None \<Rightarrow> True
               | Some s \<Rightarrow> now + int (length pre) * pingInterval + d < s)
            \<longrightarrow> pingLoop pingInterval stop (pre @ p # ps) now
                = Exit 253 (now + int (length pre) * pingInterval + d)) \<and>
         (send_failed p
            \<longrightarrow> pingLoop pingInterval stop (pre @ p # ps) now
                = Exit 254 (now + int (length pre) * pingInterval)) \<and>
         (\<not> send_failed p \<and>
          (case pong p of None \<Rightarrow> True | Some (d, m) \<Rightarrow> pingInterval < d) \<and>
          (case stop of
             None \<Rightarrow> True
           | Some s \<Rightarrow> now + int (length pre) * pingInterval + pingInterval < s)
            \<longrightarrow> pingLoop pingInterval stop (pre @ p # ps) now
                = Exit 255 (now + int (length pre) * pingInterval + pingInterval))"
proof -
  define n where "n = now + int (length pre) * pingInterval"
  have run: "pingLoop pingInterval stop (pre @ p # ps) now
             = pingLoop pingInterval stop (p # ps) n"
    unfolding n_def by (rule pingLoop_answered [OF assms(2)])
  have 1: "\<forall>d m. \<not> send_failed p \<and> pong p = Some (d, m) \<and> Command m = ''error'' \<and>
              0 \<le> d \<and> d < pingInterval \<and>
              (case stop of None \<Rightarrow> True | Some s \<Rightarrow> n + d < s)
            \<longrightarrow> pingLoop pingInterval stop (p # ps) n = Exit 253 (n + d)"
  proof (intro allI impI)
    fix d m
    assume "\<not> send_failed p \<and> pong p = Some (d, m) \<and> Command m = ''error'' \<and>
              0 \<le> d \<and> d < pingInterval \<and>
              (case stop of None \<Rightarrow> True | Some s \<Rightarrow> n + d < s)"
    then show "pingLoop pingInterval stop (p # ps) n = Exit 253 (n + d)"
      by (intro pingLoop_error_pong [where m = m]) simp_all
  qed
  have 2: "send_failed p \<longrightarrow> pingLoop pingInterval stop (p # ps) n = Exit 254 n"
    by (simp add: pingLoop_send_failed)
  have 3: "\<not> send_failed p \<and>
          (case pong p of None \<Rightarrow> True | Some (d, m) \<Rightarrow> pingInterval < d) \<and>
          (case stop of None \<Rightarrow> True | Some s \<Rightarrow> n + pingInterval < s)
            \<longrightarrow> pingLoop pingInterval stop (p # ps) n = Exit 255 (n + pingInterval)"
    using assms(1) by (intro impI pingLoop_timeout) simp_all
  from 1 2 3 show ?thesis
    unfolding run n_def by blast
qed

theorem pingLoop_error_pong_is_fatal_witness:
  "pingLoop 30 None
     [\<lparr>send_failed = False, pong = Some (5, Message ''response'' 1 ''null''),
       choice1 = 0, choice2 = 0\<rparr>,
      \<lparr>send_failed = False, pong = Some (5, Message ''error'' 2 ''{}''),
       choice1 = 0, choice2 = 0\<rparr>] 100
     = Exit 253 135 \<and>
   pingLoop 30 None
     [\<lparr>send_failed = False, pong = Some (5, Message ''response'' 1 ''null''),
       choice1 = 0, choice2 = 0\<rparr>,
      \<lparr>send_failed = True, pong = None, choice1 = 0, choice2 = 0\<rparr>] 100
     = Exit 254 130 \<and>
   pingLoop 30 None
     [\<lparr>send_failed = False, pong = Some (5, Message ''response'' 1 ''null''),
       choice1 = 0, choice2 = 0\<rparr>,
      \<lparr>send_failed = False, pong = None, choice1 = 0, choice2 = 0\<rparr>] 100
     = Exit 255 160"
proof -
  let ?good = "\<lparr>send_failed = False, pong = Some (5, Message ''response'' 1 ''null''),
                choice1 = 0, choice2 = 0\<rparr>"
  let ?bad = "\<lparr>send_failed = False, pong = Some (5, Message ''error'' 2 ''{}''),
               choice1 = 0, choice2 = 0\<rparr>"
  let ?unsent = "\<lparr>send_failed = True, pong = None, choice1 = 0, choice2 = 0\<rparr>"
  let ?silent = "\<lparr>send_failed = False, pong = None, choice1 = 0, choice2 = 0\<rparr>"
  have i: "(0::int) \<le> 30" by simp
  have a: "answered 30 None [?good] 100"
    by simp
  from pingLoop_error_pong_is_fatal [OF i a, of ?bad "[]"]
  have 1: "pingLoop 30 None [?good, ?bad] 100 = Exit 253 135"
    by simp
  from pingLoop_error_pong_is_fatal [OF i a, of ?unsent "[]"]
  have 2: "pingLoop 30 None [?good, ?unsent] 100 = Exit 254 130"
    by simp
  from pingLoop_error_pong_is_fatal [OF i a, of ?silent "[]"]
  have 3: "pingLoop 30 None [?good, ?silent] 100 = Exit 255 160"
    by simp
  from 1 2 3 show ?thesis by simp
qed

section \<open>Properties of stopping the child\<close>

text \<open>
  C6. A connector whose child was started and is running has \<open>ProcessState = nil\<close>,
  so \<open>Stop\<close> takes its first branch: it logs that the subprocess is not running and
  returns. The child receives no signal, no timer is armed and nothing is sent on
  \<open>stopPinger\<close>.
\<close>

theorem Stop_running_child_does_nothing:
  "Stop (snd (Start None NewMacNoSIPConnector))
     = Finished
         \<lparr>proc = Some \<lparr>Process = True, ProcessState = None, running = True, signals = []\<rparr>,
          stopPinger = 0, kill_timers = 0, mac_logged = [NotRunningWhenStopCalled]\<rparr>"
  by (simp add: Stop_def Start_def NewMacNoSIPConnector_def not_running_def)

section \<open>Properties of dispatch\<close>

text \<open>
  C4. A handler that panics with a Go string (\<open>panic("boom")\<close>) on an envelope with
  id 7: the panic is recovered and logged, and the reply that \<open>respond\<close> writes carries
  id 7 and the command \<open>response\<close>, since the recovered value is not an \<open>error\<close>.
\<close>

theorem callHandler_string_panic_is_response:
  "callHandler (Message ''merge_rooms'' 7 ''{}'') (\<lambda>_. Panics (StringValue ''boom'')) None
     NewProcessor
   = NewProcessor
       \<lparr>stdout := [OutgoingMessage ''response'' 7 (StringValue ''boom'')],
        logged := [PanicInHandler ''merge_rooms'' (StringValue ''boom'')]\<rparr>"
  by (simp add: callHandler_def NewProcessor_def respond_def Encode_def CommandResponse_def)

text \<open>A panic with a value that implements \<open>error\<close> does become an \<open>error\<close> reply.\<close>

lemma callHandler_error_panic:
  "handler (Data msg) = Panics (ErrorValue e) \<Longrightarrow>
   callHandler msg handler None p
   = p\<lparr>logged := logged p @ [PanicInHandler (Command msg) (ErrorValue e)],
       stdout := stdout p @ [OutgoingMessage ''error'' (ID msg) (StringValue e)]\<rparr>"
  by (simp add: callHandler_def respond_def Encode_def CommandError_def)

text \<open>
  Whatever the handler does, return or panic, \<open>callHandler\<close> touches nothing but the
  output stream and the log: the table, the channels, the handlers and the other
  goroutines are as before.
\<close>

lemma callHandler_only_writes:
  "waiters (callHandler msg handler enc_err p) = waiters p \<and>
   heap (callHandler msg handler enc_err p) = heap p \<and>
   handlers (callHandler msg handler enc_err p) = handlers p \<and>
   goroutines (callHandler msg handler enc_err p) = goroutines p \<and>
   next_chan (callHandler msg handler enc_err p) = next_chan p"
  by (cases "handler (Data msg)"; cases enc_err)
     (simp_all add: callHandler_def respond_def Encode_def split: iface.splits)

text \<open>
  C3, as the code has it. An envelope whose command is neither \<open>response\<close> nor
  \<open>error\<close> and has no handler gets an \<open>unknown command\<close> error reply addressed to
  its id, whatever the id is, zero included; a failed write of the reply is logged. The
  loop then goes on with the next input.
\<close>

theorem unknown_command_reply_any_id:
  assumes "Command msg \<noteq> ''response''" and "Command msg \<noteq> ''error''"
    and "handlers p (Command msg) = None"
  shows "Loop_body msg enc_err p
         = (None,
            p\<lparr>logged := logged p @ ReceivedCommand msg #
                 (case enc_err of None \<Rightarrow> [] | Some e \<Rightarrow> [FailedToEncode e]),
              stdout := stdout p @
                 (case enc_err of
                    None \<Rightarrow> [OutgoingMessage ''error'' (ID msg) (StringValue ''unknown command'')]
                  | Some e \<Rightarrow> [])\<rparr>) \<and>
         Loop ((Decoded msg, enc_err) # rest) p
         = Loop rest (snd (Loop_body msg enc_err p))"
proof -
  have body: "Loop_body msg enc_err p
         = (None,
            p\<lparr>logged := logged p @ ReceivedCommand msg #
                 (case enc_err of None \<Rightarrow> [] | Some e \<Rightarrow> [FailedToEncode e]),
              stdout := stdout p @
                 (case enc_err of
                    None \<Rightarrow> [OutgoingMessage ''error'' (ID msg) (StringValue ''unknown command'')]
                  | Some e \<Rightarrow> [])\<rparr>)"
    using assms
    by (cases enc_err)
       (simp_all add: Loop_body_def respond_def ErrUnknownCommand_def Encode_def CommandError_def)
  then show ?thesis by simp
qed

theorem unknown_command_reply_any_id_witness:
  "Loop [(Decoded (Message ''foo'' 5 ''{}''), None), (EOF, None)] NewProcessor
   = (Ended,
      NewProcessor
        \<lparr>logged := [ReceivedCommand (Message ''foo'' 5 ''{}''), InputClosed],
         stdout := [OutgoingMessage ''error'' 5 (StringValue ''unknown command'')]\<rparr>)"
  using unknown_command_reply_any_id
          [of "Message ''foo'' 5 ''{}''" NewProcessor None "[(EOF, None)]"]
  by (simp add: NewProcessor_def)

text \<open>
  The claim as the specification words it fails for id 0: the reply is written all the same.
\<close>

theorem unknown_command_reply_id_zero_sent:
  "handlers NewProcessor ''foo'' = None \<and>
   stdout (snd (Loop_body (Message ''foo'' 0 ''{}'') None NewProcessor))
     = [OutgoingMessage ''error'' 0 (StringValue ''unknown command'')]"
  by (simp add: Loop_body_def NewProcessor_def respond_def ErrUnknownCommand_def Encode_def
        CommandError_def)

section \<open>Properties of the correlation table\<close>

lemma respond_keeps_table:
  "waiters (respond i r e p) = waiters p \<and> heap (respond i r e p) = heap p \<and>
   next_chan (respond i r e p) = next_chan p \<and> reqID (respond i r e p) = reqID p"
  by (cases e; cases r) (simp_all add: respond_def Encode_def)

lemma Loop_body_reply_found:
  assumes "waiters_ok p" and "is_reply msg" and "waiters p (ID msg) = Some c"
  shows "Loop_body msg e p
         = (None, p\<lparr>logged := logged p @ [ReceivedCommand msg],
                    waiters := (waiters p)(ID msg := None),
                    heap := (heap p)(c := \<lparr>buffer = [msg], capacity = 1, is_closed = False\<rparr>)\<rparr>)"
proof -
  from assms(1,3) have "heap p c = \<lparr>buffer = [], capacity = 1, is_closed = False\<rparr>"
    by (simp add: waiters_ok_def)
  with assms(2,3) show ?thesis
    by (simp add: Loop_body_def is_reply_def chan_send_def)
qed

lemma Loop_body_reply_missing:
  assumes "is_reply msg" and "waiters p (ID msg) = None"
  shows "Loop_body msg e p
         = (None, p\<lparr>logged := logged p @ [ReceivedCommand msg, NothingWaiting (ID msg)]\<rparr>)"
  using assms by (simp add: Loop_body_def is_reply_def)

lemma Loop_body_not_reply:
  assumes "\<not> is_reply msg"
  shows "fst (Loop_body msg e p) = None \<and>
         waiters (snd (Loop_body msg e p)) = waiters p \<and>
         heap (snd (Loop_body msg e p)) = heap p \<and>
         next_chan (snd (Loop_body msg e p)) = next_chan p"
  using assms
  by (cases "handlers p (Command msg)")
     (simp_all add: Loop_body_def is_reply_def respond_keeps_table)

lemma waiters_ok_Loop_body:
  assumes "waiters_ok p"
  shows "fst (Loop_body msg e p) = None \<and> waiters_ok (snd (Loop_body msg e p))"
proof (cases "is_reply msg")
  case False
  with assms show ?thesis
    by (simp add: Loop_body_not_reply waiters_ok_def)
next
  case True
  show ?thesis
  proof (cases "waiters p (ID msg)")
    case None
    with True assms show ?thesis
      by (simp add: Loop_body_reply_missing waiters_ok_def)
  next
    case (Some c)
    have other: "\<And>i. i \<noteq> ID msg \<Longrightarrow> waiters p i \<noteq> Some c"
      using assms Some by (auto simp: waiters_ok_def)
    from assms have
      "\<And>i c'. i \<noteq> ID msg \<Longrightarrow> waiters p i = Some c' \<Longrightarrow>
         c' < next_chan p \<and> heap p c' = \<lparr>buffer = [], capacity = 1, is_closed = False\<rparr>"
      and "\<And>i j c'. waiters p i = Some c' \<Longrightarrow> waiters p j = Some c' \<Longrightarrow> i = j"
      by (auto simp: waiters_ok_def)
    with other show ?thesis
      by (auto simp: Loop_body_reply_found [OF assms True Some] waiters_ok_def)
  qed
qed

lemma Loop_keeps_unlisted_channel:
  assumes "waiters_ok p" and "\<forall>i. waiters p i \<noteq> Some c"
  shows "heap (snd (Loop ins p)) c = heap p c"
  using assms
proof (induction ins p rule: Loop.induct)
  case (4 msg enc_err rest p)
  obtain p' where body: "Loop_body msg enc_err p = (None, p')"
    using waiters_ok_Loop_body [OF "4.prems"(1), of msg enc_err]
    by (cases "Loop_body msg enc_err p") auto
  have ok': "waiters_ok p'"
    using waiters_ok_Loop_body [OF "4.prems"(1), of msg enc_err] body by simp
  have same: "heap p' c = heap p c \<and> (\<forall>i. waiters p' i \<noteq> Some c)"
  proof (cases "is_reply msg")
    case False
    with body "4.prems"(2) Loop_body_not_reply [OF False, of enc_err p] show ?thesis
      by simp
  next
    case True
    show ?thesis
    proof (cases "waiters p (ID msg)")
      case None
      with True body "4.prems"(2) show ?thesis
        by (auto simp: Loop_body_reply_missing)
    next
      case (Some c')
      with "4.prems"(2) have "c' \<noteq> c" by auto
      with True Some body "4.prems" show ?thesis
        by (auto simp: Loop_body_reply_found split: if_splits)
    qed
  qed
  have "heap (snd (Loop rest p')) c = heap p' c"
    using "4.IH" [OF body [symmetric] refl] ok' same
    by simp
  with body same show ?case by simp
qed simp_all

lemma Loop_never_faults:
  assumes "waiters_ok p"
  shows "(\<forall>f. fst (Loop ins p) \<noteq> Faulted f) \<and> waiters_ok (snd (Loop ins p))"
  using assms
proof (induction ins p rule: Loop.induct)
  case (4 msg enc_err rest p)
  obtain p' where body: "Loop_body msg enc_err p = (None, p')"
    using waiters_ok_Loop_body [OF "4.prems"(1), of msg enc_err]
    by (cases "Loop_body msg enc_err p") auto
  have ok': "waiters_ok p'"
    using waiters_ok_Loop_body [OF "4.prems"(1), of msg enc_err] body by simp
  from "4.IH" [OF body [symmetric] refl ok'] body show ?case by simp
qed (simp_all add: waiters_ok_def)

lemma Loop_keeps_waiter:
  assumes "waiters_ok p"
    and "find (\<lambda>m. is_reply m \<and> ID m = i) (read_messages ins) = None"
  shows "waiters (snd (Loop ins p)) i = waiters p i"
  using assms
proof (induction ins p rule: Loop.induct)
  case (4 msg enc_err rest p)
  obtain p' where body: "Loop_body msg enc_err p = (None, p')"
    using waiters_ok_Loop_body [OF "4.prems"(1), of msg enc_err]
    by (cases "Loop_body msg enc_err p") auto
  have ok': "waiters_ok p'"
    using waiters_ok_Loop_body [OF "4.prems"(1), of msg enc_err] body by simp
  from "4.prems"(2) have no: "\<not> (is_reply msg \<and> ID msg = i)"
    and rest: "find (\<lambda>m. is_reply m \<and> ID m = i) (read_messages rest) = None"
    by (auto split: if_splits)
  have same: "waiters p' i = waiters p i"
  proof (cases "is_reply msg")
    case False
    with body Loop_body_not_reply [OF False, of enc_err p] show ?thesis by simp
  next
    case True
    with no have "ID msg \<noteq> i" by simp
    with True body "4.prems"(1) show ?thesis
      by (cases "waiters p (ID msg)")
         (auto simp: Loop_body_reply_missing Loop_body_reply_found)
  qed
  from "4.IH" [OF body [symmetric] refl ok' rest] body same show ?case by simp
qed simp_all

lemma Loop_first_reply:
  assumes "waiters_ok p" and "waiters p i = Some c"
  shows "buffer (heap (snd (Loop ins p)) c)
         = (case find (\<lambda>m. is_reply m \<and> ID m = i) (read_messages ins) of
              None \<Rightarrow> [] | Some m \<Rightarrow> [m])"
  using assms
proof (induction ins p rule: Loop.induct)
  case (4 msg enc_err rest p)
  obtain p' where body: "Loop_body msg enc_err p = (None, p')"
    using waiters_ok_Loop_body [OF "4.prems"(1), of msg enc_err]
    by (cases "Loop_body msg enc_err p") auto
  have ok': "waiters_ok p'"
    using waiters_ok_Loop_body [OF "4.prems"(1), of msg enc_err] body by simp
  show ?case
  proof (cases "is_reply msg \<and> ID msg = i")
    case True
    with "4.prems" body
    have p': "p' = p\<lparr>logged := logged p @ [ReceivedCommand msg],
                     waiters := (waiters p)(ID msg := None),
                     heap := (heap p)(c := \<lparr>buffer = [msg], capacity = 1, is_closed = False\<rparr>)\<rparr>"
      by (simp add: Loop_body_reply_found)
    have "\<forall>j. waiters p' j \<noteq> Some c"
      using "4.prems" True p' by (auto simp: waiters_ok_def)
    from Loop_keeps_unlisted_channel [OF ok' this, of rest] p' body True show ?thesis
      by simp
  next
    case False
    have same: "waiters p' i = Some c"
    proof (cases "is_reply msg")
      case False
      with body Loop_body_not_reply [OF False, of enc_err p] "4.prems"(2) show ?thesis by simp
    next
      case True
      with False have "ID msg \<noteq> i" by simp
      with True body "4.prems" show ?thesis
        by (cases "waiters p (ID msg)")
           (auto simp: Loop_body_reply_missing Loop_body_reply_found)
    qed
    from "4.IH" [OF body [symmetric] refl ok' same] body False show ?thesis
      by auto
  qed
qed (simp_all add: waiters_ok_def)

lemma Request_sent:
  "Request cmd data None p
   = ((next_chan p, None),
      p\<lparr>heap := (heap p)(next_chan p := \<lparr>buffer = [], capacity = 1, is_closed = False\<rparr>),
        next_chan := Suc (next_chan p),
        reqID := reqID p + 1,
        waiters := (waiters p)(next_id p \<mapsto> next_chan p),
        stdout := stdout p @ [OutgoingMessage cmd (next_id p) data]\<rparr>)"
  by (simp add: Request_def Encode_def next_id_def Let_def)

lemma Request_not_sent:
  "Request cmd data (Some err) p
   = ((next_chan p, Some err),
      p\<lparr>heap := (heap p)(next_chan p := \<lparr>buffer = [], capacity = 1, is_closed = True\<rparr>),
        next_chan := Suc (next_chan p),
        reqID := reqID p + 1,
        waiters := (waiters p)(next_id p := None)\<rparr>)"
  by (simp add: Request_def Encode_def next_id_def Let_def)

lemma waiters_ok_NewProcessor: "waiters_ok NewProcessor"
  by (simp add: waiters_ok_def NewProcessor_def)

lemma waiters_ok_Request:
  assumes "waiters_ok p"
  shows "waiters_ok (snd (Request cmd data enc_err p))"
proof -
  from assms have fresh: "\<And>i c. waiters p i = Some c \<Longrightarrow> c < next_chan p"
    and empty: "\<And>i c. waiters p i = Some c \<Longrightarrow>
                  heap p c = \<lparr>buffer = [], capacity = 1, is_closed = False\<rparr>"
    and inj: "\<And>i j c. waiters p i = Some c \<Longrightarrow> waiters p j = Some c \<Longrightarrow> i = j"
    by (auto simp: waiters_ok_def)
  show ?thesis
  proof (cases enc_err)
    case None
    show ?thesis
      unfolding None Request_sent waiters_ok_def
      using fresh empty inj by (fastforce split: if_splits)
  next
    case (Some err)
    show ?thesis
      unfolding Some Request_not_sent waiters_ok_def
      using fresh empty inj by (fastforce split: if_splits)
  qed
qed

lemma waiters_ok_SetHandler: "waiters_ok p \<Longrightarrow> waiters_ok (SetHandler cmd handler p)"
  by (simp add: waiters_ok_def SetHandler_def)

lemma waiters_ok_run_goroutine: "waiters_ok p \<Longrightarrow> waiters_ok (run_goroutine k enc_err p)"
  by (simp add: waiters_ok_def run_goroutine_def callHandler_only_writes)

lemma waiters_ok_RequestWait_select:
  assumes "waiters_ok p" and "respChan < next_chan p"
  shows "waiters_ok (snd (RequestWait_select respChan ctx_err prefer_ctx p))"
proof (cases "\<exists>i. waiters p i = Some respChan")
  case True
  with assms(1) have "heap p respChan = \<lparr>buffer = [], capacity = 1, is_closed = False\<rparr>"
    unfolding waiters_ok_def by blast
  then have "snd (RequestWait_select respChan ctx_err prefer_ctx p) = p"
    by (cases ctx_err) (simp_all add: RequestWait_select_def)
  with assms(1) show ?thesis by simp
next
  case False
  then have no: "\<And>i. waiters p i \<noteq> Some respChan" by simp
  have w: "waiters (snd (RequestWait_select respChan ctx_err prefer_ctx p)) = waiters p"
    and n: "next_chan (snd (RequestWait_select respChan ctx_err prefer_ctx p)) = next_chan p"
    and h: "\<And>c. c \<noteq> respChan \<Longrightarrow>
              heap (snd (RequestWait_select respChan ctx_err prefer_ctx p)) c = heap p c"
    by (cases ctx_err; cases "buffer (heap p respChan)";
        simp add: RequestWait_select_def Let_def)+
  from assms(1) no show ?thesis
    unfolding waiters_ok_def w n using h by metis
qed

text \<open>Every state that the operations can produce has a table in the state C1 starts from.\<close>

lemma reachable_waiters_ok: "reachable p \<Longrightarrow> waiters_ok p"
proof (induction rule: reachable.induct)
  case new
  show ?case by (rule waiters_ok_NewProcessor)
next
  case (set_handler p cmd handler)
  then show ?case by (simp add: waiters_ok_SetHandler)
next
  case (request p cmd data enc_err)
  then show ?case by (simp add: waiters_ok_Request)
next
  case (loop p msg enc_err)
  then show ?case by (simp add: waiters_ok_Loop_body)
next
  case (goroutine p k enc_err)
  then show ?case by (simp add: waiters_ok_run_goroutine)
next
  case (wait p respChan ctx_err prefer_ctx)
  then show ?case by (simp add: waiters_ok_RequestWait_select)
qed

text \<open>
  C1. From a state of the correlation table as every reachable state has it: a
  reply whose id is pending removes that entry and puts the message into the waiter's
  channel, changing nothing else but the log; a reply whose id is not pending (a second
  reply to the same id is one) is logged and changes nothing else; and over any input the
  loop reads, the channel of a pending id ends up holding the first reply carrying that
  id and no other message, the loop never blocking or panicking on a send.
\<close>

theorem reply_delivered_at_most_once:
  assumes "waiters_ok p"
  shows "(\<forall>msg e c. is_reply msg \<and> waiters p (ID msg) = Some c \<longrightarrow>
            Loop_body msg e p
            = (None, p\<lparr>logged := logged p @ [ReceivedCommand msg],
                       waiters := (waiters p)(ID msg := None),
                       heap := (heap p)(c := (heap p c)\<lparr>buffer := [msg]\<rparr>)\<rparr>)) \<and>
         (\<forall>msg e. is_reply msg \<and> waiters p (ID msg) = None \<longrightarrow>
            Loop_body msg e p
            = (None, p\<lparr>logged := logged p @ [ReceivedCommand msg, NothingWaiting (ID msg)]\<rparr>)) \<and>
         (\<forall>ins i c. waiters p i = Some c \<longrightarrow>
            (\<forall>f. fst (Loop ins p) \<noteq> Faulted f) \<and>
            buffer (heap (snd (Loop ins p)) c)
            = (case find (\<lambda>m. is_reply m \<and> ID m = i) (read_messages ins) of
                 None \<Rightarrow> [] | Some m \<Rightarrow> [m]))"
proof (intro conjI allI impI)
  fix msg e c
  assume h: "is_reply msg \<and> waiters p (ID msg) = Some c"
  with assms have "heap p c = \<lparr>buffer = [], capacity = 1, is_closed = False\<rparr>"
    unfolding waiters_ok_def by blast
  with h assms show "Loop_body msg e p
            = (None, p\<lparr>logged := logged p @ [ReceivedCommand msg],
                       waiters := (waiters p)(ID msg := None),
                       heap := (heap p)(c := (heap p c)\<lparr>buffer := [msg]\<rparr>)\<rparr>)"
    by (simp add: Loop_body_reply_found)
next
  fix msg e
  assume "is_reply msg \<and> waiters p (ID msg) = None"
  then show "Loop_body msg e p
            = (None, p\<lparr>logged := logged p @ [ReceivedCommand msg, NothingWaiting (ID msg)]\<rparr>)"
    by (simp add: Loop_body_reply_missing)
next
  fix ins i c f
  assume "waiters p i = Some c"
  from Loop_never_faults [OF assms, of ins] show "fst (Loop ins p) \<noteq> Faulted f"
    by simp
next
  fix ins i c
  assume "waiters p i = Some c"
  with assms show "buffer (heap (snd (Loop ins p)) c)
            = (case find (\<lambda>m. is_reply m \<and> ID m = i) (read_messages ins) of
                 None \<Rightarrow> [] | Some m \<Rightarrow> [m])"
    by (rule Loop_first_reply)
qed

theorem reply_delivered_at_most_once_witness:
  "waiters_ok (snd (Request ''ping'' Nil None NewProcessor)) \<and>
   waiters (snd (Request ''ping'' Nil None NewProcessor)) 1 = Some 0 \<and>
   buffer (heap (snd (Loop [(Decoded (Message ''response'' 2 ''null''), None),
                            (Decoded (Message ''response'' 1 ''true''), None),
                            (Decoded (Message ''error'' 1 ''false''), None)]
                       (snd (Request ''ping'' Nil None NewProcessor)))) 0)
   = [Message ''response'' 1 ''true'']"
proof -
  have ok: "waiters_ok (snd (Request ''ping'' Nil None NewProcessor))"
    by (rule waiters_ok_Request [OF waiters_ok_NewProcessor])
  have w: "waiters (snd (Request ''ping'' Nil None NewProcessor)) 1 = Some 0"
    by (simp add: Request_sent next_id_def NewProcessor_def)
  from reply_delivered_at_most_once [OF ok] w
  have "buffer (heap (snd (Loop [(Decoded (Message ''response'' 2 ''null''), None),
                            (Decoded (Message ''response'' 1 ''true''), None),
                            (Decoded (Message ''error'' 1 ''false''), None)]
                       (snd (Request ''ping'' Nil None NewProcessor)))) 0)
        = (case find (\<lambda>m. is_reply m \<and> ID m = 1)
                  (read_messages [(Decoded (Message ''response'' 2 ''null''), None),
                            (Decoded (Message ''response'' 1 ''true''), None),
                            (Decoded (Message ''error'' 1 ''false''), None)]) of
             None \<Rightarrow> [] | Some m \<Rightarrow> [m])"
    by blast
  with ok w show ?thesis
    by (simp add: is_reply_def)
qed

text \<open>
  C8. When the write of the outgoing envelope fails, \<open>Request\<close> returns the error, and
  the state it leaves differs from the one it found only by the request counter, the
  entry of the new id (absent) and the request's own channel (allocated, closed): every
  other entry of the table and every other channel is as before, nothing reached the
  stream, the handlers and the running goroutines are untouched, and the table is still
  one the read loop works on.
\<close>

theorem Request_send_failure_cleans_up:
  "Request cmd data (Some err) p
   = ((next_chan p, Some err),
      p\<lparr>heap := (heap p)(next_chan p := \<lparr>buffer = [], capacity = 1, is_closed = True\<rparr>),
        next_chan := Suc (next_chan p),
        reqID := reqID p + 1,
        waiters := (waiters p)(next_id p := None)\<rparr>) \<and>
   waiters (snd (Request cmd data (Some err) p)) (next_id p) = None \<and>
   (\<forall>i. i \<noteq> next_id p \<longrightarrow>
      waiters (snd (Request cmd data (Some err) p)) i = waiters p i) \<and>
   (\<forall>c. c \<noteq> next_chan p \<longrightarrow>
      heap (snd (Request cmd data (Some err) p)) c = heap p c) \<and>
   stdout (snd (Request cmd data (Some err) p)) = stdout p \<and>
   handlers (snd (Request cmd data (Some err) p)) = handlers p \<and>
   goroutines (snd (Request cmd data (Some err) p)) = goroutines p \<and>
   (waiters_ok p \<longrightarrow> waiters_ok (snd (Request cmd data (Some err) p)))"
  using waiters_ok_Request [of p cmd data "Some err"]
  by (simp add: Request_not_sent)

theorem Request_send_failure_cleans_up_witness:
  "waiters (snd (Request ''ping'' Nil (Some ''broken pipe'')
                   (snd (Request ''chats'' Nil None NewProcessor)))) 1
   = Some 0 \<and>
   stdout (snd (Request ''ping'' Nil (Some ''broken pipe'')
                   (snd (Request ''chats'' Nil None NewProcessor))))
   = [OutgoingMessage ''chats'' 1 Nil] \<and>
   waiters_ok (snd (Request ''ping'' Nil (Some ''broken pipe'')
                   (snd (Request ''chats'' Nil None NewProcessor))))"
proof -
  define P where "P = snd (Request ''chats'' Nil None NewProcessor)"
  have ok: "waiters_ok P"
    unfolding P_def by (rule waiters_ok_Request [OF waiters_ok_NewProcessor])
  have id2: "next_id P = 2" and w: "waiters P 1 = Some 0"
    and out: "stdout P = [OutgoingMessage ''chats'' 1 Nil]"
    by (simp_all add: P_def Request_sent next_id_def NewProcessor_def)
  note T = Request_send_failure_cleans_up [of "''ping''" Nil "''broken pipe''" P]
  from T have "\<forall>i. i \<noteq> next_id P \<longrightarrow>
      waiters (snd (Request ''ping'' Nil (Some ''broken pipe'') P)) i = waiters P i"
    by (rule conjunct2 [THEN conjunct2, THEN conjunct1])
  with id2 w have 1: "waiters (snd (Request ''ping'' Nil (Some ''broken pipe'') P)) 1 = Some 0"
    by simp
  from T have "stdout (snd (Request ''ping'' Nil (Some ''broken pipe'') P)) = stdout P"
    by (rule conjunct2 [THEN conjunct2, THEN conjunct2, THEN conjunct2, THEN conjunct1])
  with out have 2: "stdout (snd (Request ''ping'' Nil (Some ''broken pipe'') P))
                    = [OutgoingMessage ''chats'' 1 Nil]"
    by simp
  from T have "waiters_ok P \<longrightarrow> waiters_ok (snd (Request ''ping'' Nil (Some ''broken pipe'') P))"
    by (rule conjunct2 [THEN conjunct2, THEN conjunct2, THEN conjunct2, THEN conjunct2,
                        THEN conjunct2, THEN conjunct2])
  with ok have 3: "waiters_ok (snd (Request ''ping'' Nil (Some ''broken pipe'') P))"
    by simp
  from 1 2 3 show ?thesis
    unfolding P_def by blast
qed

text \<open>
  C9. A request is sent successfully and \<open>RequestWait\<close> blocks; the read loop meanwhile
  reads input that holds no reply to the request. When the context is then done,
  \<open>RequestWait\<close> returns the context error and changes nothing: the entry of the request
  is still in the table. A reply that comes afterwards is taken as any reply to a pending id
  is: it goes into the abandoned channel, and only then does the entry go.
\<close>

theorem RequestWait_cancel_keeps_waiter:
  assumes "waiters_ok p"
    and "RequestWait_send cmd reqData None p = (r, p1)"
    and "find (\<lambda>m. is_reply m \<and> ID m = next_id p) (read_messages ins) = None"
    and "p2 = snd (Loop ins p1)"
  shows "r = Inr (next_chan p) \<and>
         RequestWait_select (next_chan p) (Some ctx_err) prefer_ctx p2
         = (ContextFinished ctx_err, p2) \<and>
         waiters p2 (next_id p) = Some (next_chan p) \<and>
         (\<forall>msg e. is_reply msg \<and> ID msg = next_id p \<longrightarrow>
            Loop_body msg e p2
            = (None, p2\<lparr>logged := logged p2 @ [ReceivedCommand msg],
                        waiters := (waiters p2)(next_id p := None),
                        heap := (heap p2)(next_chan p := (heap p2 (next_chan p))\<lparr>buffer := [msg]\<rparr>)\<rparr>))"
proof -
  from assms(2) have r: "r = Inr (next_chan p)"
    and p1: "p1 = snd (Request cmd reqData None p)"
    by (auto simp: RequestWait_send_def Request_sent)
  have ok1: "waiters_ok p1"
    unfolding p1 by (rule waiters_ok_Request [OF assms(1)])
  have w1: "waiters p1 (next_id p) = Some (next_chan p)"
    unfolding p1 by (simp add: Request_sent)
  have ok2: "waiters_ok p2"
    unfolding assms(4) using Loop_never_faults [OF ok1, of ins] by simp
  have w2: "waiters p2 (next_id p) = Some (next_chan p)"
    unfolding assms(4) using Loop_keeps_waiter [OF ok1 assms(3)] w1 by simp
  from ok2 w2 have h2: "heap p2 (next_chan p) = \<lparr>buffer = [], capacity = 1, is_closed = False\<rparr>"
    unfolding waiters_ok_def by blast
  have sel: "RequestWait_select (next_chan p) (Some ctx_err) prefer_ctx p2
             = (ContextFinished ctx_err, p2)"
    by (simp add: RequestWait_select_def h2)
  have late: "\<forall>msg e. is_reply msg \<and> ID msg = next_id p \<longrightarrow>
            Loop_body msg e p2
            = (None, p2\<lparr>logged := logged p2 @ [ReceivedCommand msg],
                        waiters := (waiters p2)(next_id p := None),
                        heap := (heap p2)(next_chan p := (heap p2 (next_chan p))\<lparr>buffer := [msg]\<rparr>)\<rparr>)"
  proof (intro allI impI)
    fix msg e
    assume m: "is_reply msg \<and> ID msg = next_id p"
    with w2 have "waiters p2 (ID msg) = Some (next_chan p)" by simp
    from Loop_body_reply_found [OF ok2 _ this, of e] m h2
    show "Loop_body msg e p2
            = (None, p2\<lparr>logged := logged p2 @ [ReceivedCommand msg],
                        waiters := (waiters p2)(next_id p := None),
                        heap := (heap p2)(next_chan p := (heap p2 (next_chan p))\<lparr>buffer := [msg]\<rparr>)\<rparr>)"
      by simp
  qed
  from r sel w2 late show ?thesis by blast
qed

theorem RequestWait_cancel_keeps_waiter_witness:
  "RequestWait_select 0 (Some ''context deadline exceeded'') True
     (snd (Loop [(Decoded (Message ''response'' 5 ''null''), None)]
             (snd (RequestWait_send ''ping'' Nil None NewProcessor))))
   = (ContextFinished ''context deadline exceeded'',
      snd (Loop [(Decoded (Message ''response'' 5 ''null''), None)]
             (snd (RequestWait_send ''ping'' Nil None NewProcessor)))) \<and>
   waiters (snd (Loop [(Decoded (Message ''response'' 5 ''null''), None)]
             (snd (RequestWait_send ''ping'' Nil None NewProcessor)))) 1 = Some 0"
proof -
  have n: "next_id NewProcessor = 1" "next_chan NewProcessor = 0"
    by (simp_all add: next_id_def NewProcessor_def)
  have f: "find (\<lambda>m. is_reply m \<and> ID m = next_id NewProcessor)
             (read_messages [(Decoded (Message ''response'' 5 ''null''), None)]) = None"
    by (simp add: n)
  from RequestWait_cancel_keeps_waiter
         [OF waiters_ok_NewProcessor _ f refl,
          of "''ping''" Nil "fst (RequestWait_send ''ping'' Nil None NewProcessor)"
             "snd (RequestWait_send ''ping'' Nil None NewProcessor)"
             "''context deadline exceeded''" True]
  show ?thesis
    by (simp add: n)
qed

section \<open>Properties of the reconnect backoff\<close>

lemma wrap64_id: "- (2 ^ 63) \<le> x \<Longrightarrow> x < 2 ^ 63 \<Longrightarrow> wrap64 x = x"
  by (simp add: wrap64_def)

lemma backoff_constants:
  "defaultReconnectBackoff = 2000000000" "maxReconnectBackoff = 120000000000"
  "reconnectBackoffReset = 300000000000"
  by (simp_all add: defaultReconnectBackoff_def maxReconnectBackoff_def
        reconnectBackoffReset_def Minute_def Second_def)

lemma next_backoff_within:
  assumes "in_range (lastDisconnect st)" and "now \<le> lastDisconnect st + reconnectBackoffReset"
    and "0 < reconnectBackoff st" and "reconnectBackoff st \<le> maxReconnectBackoff"
  shows "next_backoff now st = min (reconnectBackoff st * 2) maxReconnectBackoff"
proof -
  have "wrap64 (lastDisconnect st + reconnectBackoffReset)
        = lastDisconnect st + reconnectBackoffReset"
    using assms(1) by (intro wrap64_id) (simp_all add: in_range_def backoff_constants)
  moreover have "wrap64 (reconnectBackoff st * 2) = reconnectBackoff st * 2"
    using assms(3,4) by (intro wrap64_id) (simp_all add: backoff_constants)
  ultimately show ?thesis
    using assms(2) by (simp add: next_backoff_def Let_def min_def)
qed

lemma next_backoff_beyond:
  assumes "in_range (lastDisconnect st)" and "lastDisconnect st + reconnectBackoffReset < now"
  shows "next_backoff now st = defaultReconnectBackoff"
proof -
  have "wrap64 (lastDisconnect st + reconnectBackoffReset)
        = lastDisconnect st + reconnectBackoffReset"
    using assms(1) by (intro wrap64_id) (simp_all add: in_range_def backoff_constants)
  with assms(2) show ?thesis
    by (simp add: next_backoff_def)
qed

lemma ws_loop_proceeds:
  assumes "proceeds a"
  shows "ws_loop (a # as) st
         = ws_log (clock st + max 0 (session a),
                   next_backoff (clock st + max 0 (session a))
                     (st\<lparr>clock := clock st + max 0 (session a)\<rparr>))
             (ws_loop as
                (st\<lparr>reconnectBackoff := next_backoff (clock st + max 0 (session a))
                                        (st\<lparr>clock := clock st + max 0 (session a)\<rparr>),
                    lastDisconnect := clock st + max 0 (session a),
                    clock := clock st + max 0 (session a)
                      + backoff_wait (next_backoff (clock st + max 0 (session a))
                                        (st\<lparr>clock := clock st + max 0 (session a)\<rparr>))
                          (short_circuit a)\<rparr>))"
  using assms by (simp add: proceeds_def Let_def)

lemma min_double_cap:
  fixes b m :: int
  assumes "0 < b" and "0 < m"
  shows "min (min (b * 2) m * 2 ^ k) m = min (b * 2 ^ Suc k) m"
proof (cases "b * 2 \<le> m")
  case True
  then show ?thesis by (simp add: min_def)
next
  case False
  have k: "(1::int) \<le> 2 ^ k" by simp
  from assms(2) k have "m * 1 \<le> m * 2 ^ k"
    by (intro mult_left_mono) simp_all
  moreover from assms(1) k have "b * 2 * 1 \<le> b * 2 * 2 ^ k"
    by (intro mult_left_mono) simp_all
  ultimately show ?thesis
    using False by (simp add: min_def)
qed

lemma ws_loop_consecutive:
  assumes "\<forall>a\<in>set as. proceeds a"
    and "0 < reconnectBackoff st" and "reconnectBackoff st \<le> maxReconnectBackoff"
    and "in_range (lastDisconnect st)"
    and "\<forall>d\<in>set (disconnects (ws_loop as st)). in_range (fst d)"
    and "within_window (lastDisconnect st) (map fst (disconnects (ws_loop as st)))"
  shows "map snd (disconnects (ws_loop as st))
         = map (\<lambda>i. min (reconnectBackoff st * 2 ^ (i + 1)) maxReconnectBackoff)
             [0..<length as]"
  using assms
proof (induction as arbitrary: st)
  case Nil
  then show ?case by simp
next
  case (Cons a as)
  define now where "now = clock st + max 0 (session a)"
  define b where "b = next_backoff now (st\<lparr>clock := now\<rparr>)"
  define st2 where "st2 = st\<lparr>reconnectBackoff := b, lastDisconnect := now,
                              clock := now + backoff_wait b (short_circuit a)\<rparr>"
  from Cons.prems(1) have pa: "proceeds a" and pas: "\<forall>a\<in>set as. proceeds a"
    by simp_all
  have step: "ws_loop (a # as) st = ws_log (now, b) (ws_loop as st2)"
    unfolding ws_loop_proceeds [OF pa] now_def b_def st2_def ..
  from Cons.prems(6) step have near: "now \<le> lastDisconnect st + reconnectBackoffReset"
    and rest: "within_window now (map fst (disconnects (ws_loop as st2)))"
    by (simp_all add: ws_log_def)
  from Cons.prems(5) step have rng: "in_range now"
    and rngs: "\<forall>d\<in>set (disconnects (ws_loop as st2)). in_range (fst d)"
    by (simp_all add: ws_log_def)
  have b: "b = min (reconnectBackoff st * 2) maxReconnectBackoff"
    unfolding b_def
    using Cons.prems(2,3,4) near next_backoff_within [of "st\<lparr>clock := now\<rparr>" now]
    by simp
  have bpos: "0 < b" and bmax: "b \<le> maxReconnectBackoff"
    using Cons.prems(2) by (simp_all add: b backoff_constants)
  have "map snd (disconnects (ws_loop as st2))
        = map (\<lambda>i. min (reconnectBackoff st2 * 2 ^ (i + 1)) maxReconnectBackoff)
            [0..<length as]"
    using pas bpos bmax rng rngs rest
    by (intro Cons.IH) (simp_all add: st2_def)
  also have "\<dots> = map (\<lambda>i. min (reconnectBackoff st * 2 ^ Suc (i + 1)) maxReconnectBackoff)
                      [0..<length as]"
  proof -
    have mpos: "0 < maxReconnectBackoff" by (simp add: backoff_constants)
    have b2: "reconnectBackoff st2 = min (reconnectBackoff st * 2) maxReconnectBackoff"
      by (simp add: st2_def b)
    have "\<And>i. min (reconnectBackoff st2 * 2 ^ (i + 1)) maxReconnectBackoff
               = min (reconnectBackoff st * 2 ^ Suc (i + 1)) maxReconnectBackoff"
      unfolding b2 by (rule min_double_cap [OF Cons.prems(2) mpos])
    then show ?thesis by (simp only:)
  qed
  finally have tl: "map snd (disconnects (ws_loop as st2))
        = map (\<lambda>i. min (reconnectBackoff st * 2 ^ Suc (i + 1)) maxReconnectBackoff)
            [0..<length as]" .
  have "[0..<length (a # as)] = 0 # map Suc [0..<length as]"
    by (simp add: upt_conv_Cons map_Suc_upt del: upt_Suc)
  then have "map (\<lambda>i. min (reconnectBackoff st * 2 ^ (i + 1)) maxReconnectBackoff)
               [0..<length (a # as)]
             = b # map (\<lambda>i. min (reconnectBackoff st * 2 ^ Suc (i + 1)) maxReconnectBackoff)
                     [0..<length as]"
    by (simp add: b o_def)
  with tl step show ?case
    by (simp add: ws_log_def)
qed

lemma ws_log_simps:
  "disconnects (ws_log d r) = d # disconnects r" "final (ws_log d r) = final r"
  by (simp_all add: ws_log_def)

lemma next_backoff_bounds:
  assumes "0 < reconnectBackoff st" and "reconnectBackoff st \<le> maxReconnectBackoff"
  shows "0 < next_backoff now st \<and> next_backoff now st \<le> maxReconnectBackoff"
proof -
  have "wrap64 (reconnectBackoff st * 2) = reconnectBackoff st * 2"
    using assms by (intro wrap64_id) (simp_all add: backoff_constants)
  with assms show ?thesis
    by (simp add: next_backoff_def Let_def backoff_constants)
qed

text \<open>
  A disconnect that comes later than the window after the one before it, followed by
  disconnects that keep within the window: from any state of the loop.
\<close>

lemma ws_loop_reset_then_consecutive:
  assumes "\<forall>a\<in>set as. proceeds a"
    and "in_range (lastDisconnect st)"
    and "\<forall>d\<in>set (disconnects (ws_loop as st)). in_range (fst d)"
    and "map fst (disconnects (ws_loop as st)) = t # ts"
    and "lastDisconnect st + reconnectBackoffReset < t" and "within_window t ts"
  shows "map snd (disconnects (ws_loop as st))
         = map (\<lambda>i. min (defaultReconnectBackoff * 2 ^ i) maxReconnectBackoff)
             [0..<length as]"
proof -
  from assms(4) obtain a as' where as: "as = a # as'"
    by (cases as) auto
  define now where "now = clock st + max 0 (session a)"
  define b where "b = next_backoff now (st\<lparr>clock := now\<rparr>)"
  define st2 where "st2 = st\<lparr>reconnectBackoff := b, lastDisconnect := now,
                              clock := now + backoff_wait b (short_circuit a)\<rparr>"
  from assms(1) as have pa: "proceeds a" and pas: "\<forall>a\<in>set as'. proceeds a"
    by simp_all
  have step: "ws_loop as st = ws_log (now, b) (ws_loop as' st2)"
    unfolding as ws_loop_proceeds [OF pa] now_def b_def st2_def ..
  from assms(4) step have t: "t = now" and ts: "ts = map fst (disconnects (ws_loop as' st2))"
    by (simp_all add: ws_log_simps)
  from assms(3) step have rng: "in_range now"
    and rngs: "\<forall>d\<in>set (disconnects (ws_loop as' st2)). in_range (fst d)"
    by (simp_all add: ws_log_simps)
  have b: "b = defaultReconnectBackoff"
    unfolding b_def
    using assms(2,5) t next_backoff_beyond [of "st\<lparr>clock := now\<rparr>" now]
    by simp
  have "map snd (disconnects (ws_loop as' st2))
        = map (\<lambda>i. min (reconnectBackoff st2 * 2 ^ (i + 1)) maxReconnectBackoff)
            [0..<length as']"
    using pas rng rngs assms(6) t ts
    by (intro ws_loop_consecutive) (simp_all add: st2_def b backoff_constants)
  then have tl: "map snd (disconnects (ws_loop as' st2))
        = map (\<lambda>i. min (defaultReconnectBackoff * 2 ^ (i + 1)) maxReconnectBackoff)
            [0..<length as']"
    by (simp add: st2_def b)
  have "[0..<length (a # as')] = 0 # map Suc [0..<length as']"
    by (simp add: upt_conv_Cons map_Suc_upt del: upt_Suc)
  then have "map (\<lambda>i. min (defaultReconnectBackoff * 2 ^ i) maxReconnectBackoff)
               [0..<length (a # as')]
             = defaultReconnectBackoff
               # map (\<lambda>i. min (defaultReconnectBackoff * 2 ^ (i + 1)) maxReconnectBackoff)
                   [0..<length as']"
    by (simp add: o_def backoff_constants)
  with tl step b as show ?thesis
    by (simp add: ws_log_simps)
qed

text \<open>
  A run splits at any point: what the loop logs for the passes after a prefix is what it
  logs when started in the state the prefix left, whose last disconnect is the last one
  logged.
\<close>

lemma ws_loop_prefix:
  assumes "\<forall>a\<in>set pre. proceeds a"
    and "0 < reconnectBackoff st" and "reconnectBackoff st \<le> maxReconnectBackoff"
  shows "disconnects (ws_loop (pre @ as) st)
           = disconnects (ws_loop pre st) @ disconnects (ws_loop as (final (ws_loop pre st))) \<and>
         length (disconnects (ws_loop pre st)) = length pre \<and>
         0 < reconnectBackoff (final (ws_loop pre st)) \<and>
         reconnectBackoff (final (ws_loop pre st)) \<le> maxReconnectBackoff \<and>
         lastDisconnect (final (ws_loop pre st))
           = (if pre = [] then lastDisconnect st
              else fst (last (disconnects (ws_loop pre st))))"
  using assms
proof (induction pre arbitrary: st)
  case Nil
  then show ?case by simp
next
  case (Cons a pre)
  define now where "now = clock st + max 0 (session a)"
  define b where "b = next_backoff now (st\<lparr>clock := now\<rparr>)"
  define st2 where "st2 = st\<lparr>reconnectBackoff := b, lastDisconnect := now,
                              clock := now + backoff_wait b (short_circuit a)\<rparr>"
  from Cons.prems(1) have pa: "proceeds a" and ps: "\<forall>a\<in>set pre. proceeds a"
    by simp_all
  have step1: "ws_loop (a # pre) st = ws_log (now, b) (ws_loop pre st2)"
    unfolding ws_loop_proceeds [OF pa] now_def b_def st2_def ..
  have step2: "ws_loop ((a # pre) @ as) st = ws_log (now, b) (ws_loop (pre @ as) st2)"
    unfolding append_Cons ws_loop_proceeds [OF pa] now_def b_def st2_def ..
  have bb: "0 < b \<and> b \<le> maxReconnectBackoff"
    unfolding b_def using Cons.prems(2,3) next_backoff_bounds [of "st\<lparr>clock := now\<rparr>" now]
    by simp
  then have b2: "0 < reconnectBackoff st2" "reconnectBackoff st2 \<le> maxReconnectBackoff"
    by (simp_all add: st2_def)
  note IH = Cons.IH [OF ps b2]
  have l2: "lastDisconnect st2 = now"
    by (simp add: st2_def)
  from IH have len: "length (disconnects (ws_loop pre st2)) = length pre"
    by simp
  then have ne: "pre \<noteq> [] \<Longrightarrow> disconnects (ws_loop pre st2) \<noteq> []"
    by auto
  from IH l2 ne show ?case
    unfolding step1 step2 by (simp add: ws_log_simps)
qed

text \<open>
  C2, as the code has it. Take a run of the reconnect loop at any point, after the
  passes \<open>pre\<close> (none, at the start of the loop): the disconnect before that point is
  the last one of \<open>pre\<close>, or the start of the loop when there is none, where the stored
  backoff is the default. When none of the disconnects that follow comes more than the
  reset window after the one before it, the stored backoff is doubled before every wait,
  the first included, up to the cap: from the start of the loop the waits are 4, 8, 16,
  32, 64, 120, 120, ... seconds. When the first of them comes later than the window
  after the one before it and the others follow within it, the waits are 2, 4, 8, 16, 32,
  64, 120, 120, ... seconds.
\<close>

theorem backoff_sequence_consecutive:
  assumes "\<forall>a\<in>set (pre @ as). proceeds a"
    and "in_range t0"
    and "\<forall>d\<in>set (disconnects (startWebsocket t0 (pre @ as))). in_range (fst d)"
  shows "disconnects (startWebsocket t0 (pre @ as))
           = disconnects (startWebsocket t0 pre)
             @ disconnects (ws_loop as (final (startWebsocket t0 pre))) \<and>
         lastDisconnect (final (startWebsocket t0 pre))
           = (if pre = [] then t0 else fst (last (disconnects (startWebsocket t0 pre)))) \<and>
         (pre = [] \<longrightarrow>
            reconnectBackoff (final (startWebsocket t0 pre)) = defaultReconnectBackoff) \<and>
         (within_window (lastDisconnect (final (startWebsocket t0 pre)))
            (map fst (disconnects (ws_loop as (final (startWebsocket t0 pre))))) \<longrightarrow>
            map snd (disconnects (ws_loop as (final (startWebsocket t0 pre))))
            = map (\<lambda>i. min (reconnectBackoff (final (startWebsocket t0 pre)) * 2 ^ (i + 1))
                         maxReconnectBackoff)
                [0..<length as]) \<and>
         (\<forall>t ts. map fst (disconnects (ws_loop as (final (startWebsocket t0 pre)))) = t # ts \<and>
                 lastDisconnect (final (startWebsocket t0 pre)) + reconnectBackoffReset < t \<and>
                 within_window t ts \<longrightarrow>
            map snd (disconnects (ws_loop as (final (startWebsocket t0 pre))))
            = map (\<lambda>i. min (defaultReconnectBackoff * 2 ^ i) maxReconnectBackoff)
                [0..<length as])"
proof -
  define st0 where
    "st0 = \<lparr>reconnectBackoff = defaultReconnectBackoff, lastDisconnect = t0, clock = t0\<rparr>"
  define st where "st = final (ws_loop pre st0)"
  define run where "run = disconnects (ws_loop as st)"
  have sw: "\<And>xs. startWebsocket t0 xs = ws_loop xs st0"
    by (simp add: startWebsocket_def st0_def)
  from assms(1) have pp: "\<forall>a\<in>set pre. proceeds a" and pa: "\<forall>a\<in>set as. proceeds a"
    by simp_all
  have b0: "0 < reconnectBackoff st0" "reconnectBackoff st0 \<le> maxReconnectBackoff"
    by (simp_all add: st0_def backoff_constants)
  note P = ws_loop_prefix [OF pp b0, of as, folded st_def run_def]
  from P have split: "disconnects (ws_loop (pre @ as) st0) = disconnects (ws_loop pre st0) @ run"
    and len: "length (disconnects (ws_loop pre st0)) = length pre"
    and bpos: "0 < reconnectBackoff st" and bmax: "reconnectBackoff st \<le> maxReconnectBackoff"
    and lst: "lastDisconnect st
              = (if pre = [] then lastDisconnect st0 else fst (last (disconnects (ws_loop pre st0))))"
    by simp_all
  have l0: "lastDisconnect st0 = t0"
    by (simp add: st0_def)
  from assms(3) split have rall: "\<forall>d\<in>set (disconnects (ws_loop pre st0) @ run). in_range (fst d)"
    by (simp add: sw)
  then have rrun: "\<forall>d\<in>set run. in_range (fst d)"
    by simp
  have rl: "in_range (lastDisconnect st)"
  proof (cases "pre = []")
    case True
    with lst l0 assms(2) show ?thesis by simp
  next
    case False
    with len have "disconnects (ws_loop pre st0) \<noteq> []" by auto
    then have "last (disconnects (ws_loop pre st0)) \<in> set (disconnects (ws_loop pre st0))"
      by (rule last_in_set)
    with rall lst False show ?thesis by simp
  qed
  have first: "pre = [] \<longrightarrow> reconnectBackoff st = defaultReconnectBackoff"
    by (simp add: st_def st0_def)
  have within: "within_window (lastDisconnect st) (map fst run) \<longrightarrow>
            map snd run
            = map (\<lambda>i. min (reconnectBackoff st * 2 ^ (i + 1)) maxReconnectBackoff)
                [0..<length as]"
    unfolding run_def using pa bpos bmax rl rrun [unfolded run_def]
    by (intro impI ws_loop_consecutive) simp_all
  have beyond: "\<forall>t ts. map fst run = t # ts \<and>
                 lastDisconnect st + reconnectBackoffReset < t \<and> within_window t ts \<longrightarrow>
            map snd run
            = map (\<lambda>i. min (defaultReconnectBackoff * 2 ^ i) maxReconnectBackoff)
                [0..<length as]"
  proof (intro allI impI)
    fix t ts
    assume h: "map fst run = t # ts \<and>
               lastDisconnect st + reconnectBackoffReset < t \<and> within_window t ts"
    show "map snd run
          = map (\<lambda>i. min (defaultReconnectBackoff * 2 ^ i) maxReconnectBackoff)
              [0..<length as]"
      unfolding run_def
      using pa rl rrun [unfolded run_def] h [unfolded run_def]
      by (intro ws_loop_reset_then_consecutive [where t = t and ts = ts]) simp_all
  qed
  from split lst l0 first within beyond show ?thesis
    unfolding sw st_def [symmetric] run_def [symmetric] by simp
qed

lemma drops_after_proceeds: "proceeds (drops_after d)"
  by (simp add: proceeds_def drops_after_def)

theorem backoff_sequence_consecutive_witness:
  "map snd (disconnects (startWebsocket 0
      [drops_after 1, drops_after 1, drops_after 1, drops_after 1,
       drops_after 1, drops_after 1, drops_after 1, drops_after 1]))
   = [4000000000, 8000000000, 16000000000, 32000000000, 64000000000,
      120000000000, 120000000000, 120000000000] \<and>
   map snd (disconnects (startWebsocket 0
      [drops_after 301, drops_after 1, drops_after 1, drops_after 1,
       drops_after 1, drops_after 1, drops_after 1, drops_after 1]))
   = [2000000000, 4000000000, 8000000000, 16000000000, 32000000000, 64000000000,
      120000000000, 120000000000] \<and>
   map snd (disconnects (startWebsocket 0
      ([drops_after 1, drops_after 1] @ [drops_after 301, drops_after 1, drops_after 1])))
   = [4000000000, 8000000000] @ [2000000000, 4000000000, 8000000000]"
proof -
  let ?short = "[drops_after 1, drops_after 1, drops_after 1, drops_after 1,
                 drops_after 1, drops_after 1, drops_after 1, drops_after 1]"
  let ?long = "[drops_after 301, drops_after 1, drops_after 1, drops_after 1,
                drops_after 1, drops_after 1, drops_after 1, drops_after 1]"
  let ?pre = "[drops_after 1, drops_after 1]"
  let ?mid = "[drops_after 301, drops_after 1, drops_after 1]"
  have r0: "in_range 0"
    by (simp add: in_range_def backoff_constants)
  have ps: "\<forall>a\<in>set ([] @ ?short). proceeds a" and pl: "\<forall>a\<in>set ([] @ ?long). proceeds a"
    and pm: "\<forall>a\<in>set (?pre @ ?mid). proceeds a"
    by (simp_all add: drops_after_proceeds)
  have e: "final (startWebsocket 0 [])
           = \<lparr>reconnectBackoff = defaultReconnectBackoff, lastDisconnect = 0, clock = 0\<rparr>"
      "disconnects (startWebsocket 0 []) = []"
    by (simp_all add: startWebsocket_def)
  have sw: "\<And>xs. ws_loop xs
              \<lparr>reconnectBackoff = defaultReconnectBackoff, lastDisconnect = 0, clock = 0\<rparr>
            = startWebsocket 0 xs"
    by (simp add: startWebsocket_def)
  have ts: "map fst (disconnects (startWebsocket 0 ?short))
            = [1000000000, 6000000000, 15000000000, 32000000000, 65000000000,
               130000000000, 251000000000, 372000000000]"
    by code_simp
  have tl: "map fst (disconnects (startWebsocket 0 ?long))
            = [301000000000, 304000000000, 309000000000, 318000000000, 335000000000,
               368000000000, 433000000000, 554000000000]"
    by code_simp
  have tm: "map fst (disconnects (startWebsocket 0 (?pre @ ?mid)))
            = [1000000000, 6000000000, 315000000000, 318000000000, 323000000000]"
    by code_simp
  have "\<forall>t\<in>set (map fst (disconnects (startWebsocket 0 ?short))). in_range t"
    unfolding ts by (simp add: in_range_def backoff_constants)
  then have rs: "\<forall>d\<in>set (disconnects (startWebsocket 0 ([] @ ?short))). in_range (fst d)"
    by simp
  have "\<forall>t\<in>set (map fst (disconnects (startWebsocket 0 ?long))). in_range t"
    unfolding tl by (simp add: in_range_def backoff_constants)
  then have rl: "\<forall>d\<in>set (disconnects (startWebsocket 0 ([] @ ?long))). in_range (fst d)"
    by simp
  have "\<forall>t\<in>set (map fst (disconnects (startWebsocket 0 (?pre @ ?mid)))). in_range t"
    unfolding tm by (simp add: in_range_def backoff_constants)
  then have rm: "\<forall>d\<in>set (disconnects (startWebsocket 0 (?pre @ ?mid))). in_range (fst d)"
    by simp
  note S = backoff_sequence_consecutive [OF ps r0 rs, unfolded e sw]
  note L = backoff_sequence_consecutive [OF pl r0 rl, unfolded e sw]
  note M = backoff_sequence_consecutive [OF pm r0 rm]
  have ws: "within_window 0 (map fst (disconnects (startWebsocket 0 ?short)))"
    unfolding ts by (simp add: backoff_constants)
  have "map snd (disconnects (startWebsocket 0 ?short))
        = map (\<lambda>i. min (defaultReconnectBackoff * 2 ^ (i + 1)) maxReconnectBackoff)
            [0..<length ?short]"
    using S ws by simp
  also have "\<dots> = [4000000000, 8000000000, 16000000000, 32000000000, 64000000000,
                     120000000000, 120000000000, 120000000000]"
    by code_simp
  finally have 1: "map snd (disconnects (startWebsocket 0 ?short))
                   = [4000000000, 8000000000, 16000000000, 32000000000, 64000000000,
                      120000000000, 120000000000, 120000000000]" .
  have wl: "map fst (disconnects (startWebsocket 0 ?long))
              = 301000000000 # [304000000000, 309000000000, 318000000000, 335000000000,
                                368000000000, 433000000000, 554000000000] \<and>
            0 + reconnectBackoffReset < 301000000000 \<and>
            within_window 301000000000 [304000000000, 309000000000, 318000000000, 335000000000,
                                368000000000, 433000000000, 554000000000]"
    unfolding tl by (simp add: backoff_constants)
  have "map snd (disconnects (startWebsocket 0 ?long))
        = map (\<lambda>i. min (defaultReconnectBackoff * 2 ^ i) maxReconnectBackoff)
            [0..<length ?long]"
    using L wl by simp
  also have "\<dots> = [2000000000, 4000000000, 8000000000, 16000000000, 32000000000,
                     64000000000, 120000000000, 120000000000]"
    by code_simp
  finally have 2: "map snd (disconnects (startWebsocket 0 ?long))
                   = [2000000000, 4000000000, 8000000000, 16000000000, 32000000000,
                      64000000000, 120000000000, 120000000000]" .
  have pre: "map snd (disconnects (startWebsocket 0 ?pre)) = [4000000000, 8000000000]"
    and lastpre: "fst (last (disconnects (startWebsocket 0 ?pre))) = 6000000000"
    by code_simp+
  have tmid: "map fst (disconnects (ws_loop ?mid (final (startWebsocket 0 ?pre))))
              = 315000000000 # [318000000000, 323000000000]"
    by code_simp
  from M have lm: "lastDisconnect (final (startWebsocket 0 ?pre)) = 6000000000"
    using lastpre by simp
  have wm: "map fst (disconnects (ws_loop ?mid (final (startWebsocket 0 ?pre))))
              = 315000000000 # [318000000000, 323000000000] \<and>
            lastDisconnect (final (startWebsocket 0 ?pre)) + reconnectBackoffReset
              < 315000000000 \<and>
            within_window 315000000000 [318000000000, 323000000000]"
    unfolding tmid lm by (simp add: backoff_constants)
  have "map snd (disconnects (ws_loop ?mid (final (startWebsocket 0 ?pre))))
        = map (\<lambda>i. min (defaultReconnectBackoff * 2 ^ i) maxReconnectBackoff)
            [0..<length ?mid]"
    by (rule M [THEN conjunct2, THEN conjunct2, THEN conjunct2, THEN conjunct2,
                rule_format, OF wm])
  also have "\<dots> = [2000000000, 4000000000, 8000000000]"
    by code_simp
  finally have mid: "map snd (disconnects (ws_loop ?mid (final (startWebsocket 0 ?pre))))
                     = [2000000000, 4000000000, 8000000000]" .
  from M have "disconnects (startWebsocket 0 (?pre @ ?mid))
               = disconnects (startWebsocket 0 ?pre)
                 @ disconnects (ws_loop ?mid (final (startWebsocket 0 ?pre)))"
    by (rule conjunct1)
  then have 3: "map snd (disconnects (startWebsocket 0 (?pre @ ?mid)))
                = [4000000000, 8000000000] @ [2000000000, 4000000000, 8000000000]"
    using pre mid by simp
  from 1 2 3 show ?thesis by blast
qed

text \<open>
  The claim as the specification words it fails at the start of the loop: two sessions of
  one second each are followed by waits of 4 and 8 seconds, not 2 and 4.
\<close>

theorem backoff_first_wait_is_doubled:
  "session (drops_after 1) < reconnectBackoffReset \<and>
   map snd (disconnects (startWebsocket 0 [drops_after 1, drops_after 1]))
     = [4 * Second, 8 * Second] \<and>
   map snd (disconnects (startWebsocket 0 [drops_after 1, drops_after 1]))
     \<noteq> [defaultReconnectBackoff, 2 * defaultReconnectBackoff]"
  by code_simp

lemma ws_ok_start: "0 \<le> t0 \<Longrightarrow>
    ws_ok \<lparr>reconnectBackoff = defaultReconnectBackoff, lastDisconnect = t0, clock = t0\<rparr>"
  by (simp add: ws_ok_def backoff_constants)

text \<open>
  C5, as the code has it. A pass of the loop that reaches the backoff, entered with the
  last disconnect not in the future and the backoff between default and maximum, sets the
  next backoff by the time elapsed since the previous disconnect (since the start of the
  loop, for the first): the default when that time exceeds the reset window, else the
  double of the previous value, capped at the maximum. The elapsed time contains the
  backoff wait that preceded the session, so a session longer than the window is enough
  for the reset but not needed for it. The pass leaves the variables as it needs them at
  its next entry.
\<close>

theorem backoff_reset_rule:
  assumes "ws_ok st" and "proceeds a" and "0 \<le> session a"
    and "clock st + session a + reconnectBackoffReset < 2 ^ 63"
  shows "let now = clock st + session a;
             b = backoff_rule (now - lastDisconnect st) (reconnectBackoff st);
             st' = st\<lparr>reconnectBackoff := b, lastDisconnect := now,
                      clock := now + backoff_wait b (short_circuit a)\<rparr>
         in ws_loop (a # as) st = ws_log (now, b) (ws_loop as st') \<and>
            ws_ok st' \<and>
            (reconnectBackoffReset < session a \<longrightarrow> b = defaultReconnectBackoff)"
proof -
  define now where "now = clock st + session a"
  define b where "b = backoff_rule (now - lastDisconnect st) (reconnectBackoff st)"
  from assms(1) have l0: "0 \<le> lastDisconnect st" and lc: "lastDisconnect st \<le> clock st"
    and bd: "defaultReconnectBackoff \<le> reconnectBackoff st"
    and bm: "reconnectBackoff st \<le> maxReconnectBackoff"
    by (simp_all add: ws_ok_def)
  have rng: "in_range (lastDisconnect st)"
    using l0 lc assms(3,4) by (simp add: in_range_def)
  have nb: "next_backoff now (st\<lparr>clock := now\<rparr>) = b"
  proof (cases "lastDisconnect st + reconnectBackoffReset < now")
    case True
    with rng next_backoff_beyond [of "st\<lparr>clock := now\<rparr>" now] show ?thesis
      by (simp add: b_def backoff_rule_def)
  next
    case False
    with rng bd bm next_backoff_within [of "st\<lparr>clock := now\<rparr>" now] show ?thesis
      by (simp add: b_def backoff_rule_def backoff_constants)
  qed
  have m: "max 0 (session a) = session a"
    using assms(3) by simp
  have step: "ws_loop (a # as) st
              = ws_log (now, b)
                  (ws_loop as (st\<lparr>reconnectBackoff := b, lastDisconnect := now,
                                  clock := now + backoff_wait b (short_circuit a)\<rparr>))"
    using nb unfolding ws_loop_proceeds [OF assms(2)] m now_def by simp
  have bw: "0 \<le> backoff_wait b (short_circuit a)"
    by (cases "short_circuit a") (simp_all add: backoff_wait_def)
  have brange: "defaultReconnectBackoff \<le> b \<and> b \<le> maxReconnectBackoff"
    using bd bm by (simp add: b_def backoff_rule_def backoff_constants)
  have ok: "ws_ok (st\<lparr>reconnectBackoff := b, lastDisconnect := now,
                      clock := now + backoff_wait b (short_circuit a)\<rparr>)"
    using l0 lc assms(3) bw brange by (simp add: ws_ok_def now_def)
  have long: "reconnectBackoffReset < session a \<longrightarrow> b = defaultReconnectBackoff"
    using lc by (simp add: b_def backoff_rule_def now_def)
  from step ok long show ?thesis
    unfolding Let_def now_def [symmetric] b_def [symmetric] by blast
qed

theorem backoff_reset_rule_witness:
  "ws_loop [drops_after 301]
     \<lparr>reconnectBackoff = defaultReconnectBackoff, lastDisconnect = 0, clock = 0\<rparr>
   = \<lparr>disconnects = [(301000000000, 2000000000)], bridge_stopped = False, returned = False,
      final = \<lparr>reconnectBackoff = 2000000000, lastDisconnect = 301000000000,
                clock = 303000000000\<rparr>\<rparr> \<and>
   ws_loop [drops_after 299]
     \<lparr>reconnectBackoff = defaultReconnectBackoff, lastDisconnect = 0, clock = 0\<rparr>
   = \<lparr>disconnects = [(299000000000, 4000000000)], bridge_stopped = False, returned = False,
      final = \<lparr>reconnectBackoff = 4000000000, lastDisconnect = 299000000000,
                clock = 303000000000\<rparr>\<rparr>"
proof -
  have ok: "ws_ok \<lparr>reconnectBackoff = defaultReconnectBackoff, lastDisconnect = 0, clock = 0\<rparr>"
    by (rule ws_ok_start) simp
  have 1: "0 \<le> session (drops_after 301)" "0 \<le> session (drops_after 299)"
    by (simp_all add: drops_after_def Second_def)
  have 2: "clock \<lparr>reconnectBackoff = defaultReconnectBackoff, lastDisconnect = 0, clock = 0\<rparr>
             + session (drops_after 301) + reconnectBackoffReset < 2 ^ 63"
          "clock \<lparr>reconnectBackoff = defaultReconnectBackoff, lastDisconnect = 0, clock = 0\<rparr>
             + session (drops_after 299) + reconnectBackoffReset < 2 ^ 63"
    by (simp_all add: drops_after_def Second_def backoff_constants)
  from backoff_reset_rule [OF ok drops_after_proceeds 1(1) 2(1), of "[]"]
       backoff_reset_rule [OF ok drops_after_proceeds 1(2) 2(2), of "[]"]
  show ?thesis
    by (simp add: Let_def backoff_rule_def backoff_constants drops_after_def Second_def
          ws_log_def backoff_wait_def)
qed

text \<open>
  The claim as the specification words it fails when the wait before the session makes
  up the difference: after a wait of 4 seconds, a session of 299 seconds, shorter than the
  window, resets the backoff to the default instead of doubling it to 8 seconds.
\<close>

theorem backoff_reset_after_short_session:
  "session (drops_after 299) < reconnectBackoffReset \<and>
   disconnects (startWebsocket 0 [drops_after 1, drops_after 299])
     = [(1 * Second, 4 * Second), (304 * Second, defaultReconnectBackoff)]"
  by code_simp

end
